theory Spec2Isabelle
  imports Complex_Main
begin

section \<open>The voice of the additive synthesiser (PluginProcessor.h, SineWaveVoice)\<close>

text \<open>
  The C++ types \<open>float\<close> and \<open>double\<close> are modelled by \<^typ>\<open>real\<close> with exact
  arithmetic: rounding, infinities and NaN are outside the model. The type \<open>int\<close> is
  modelled by \<^typ>\<open>int\<close>: the counters of the voice only count down to 0 from a
  total that \<open>std::max(1, ...)\<close> has bounded below, so no operation on them wraps (the
  conversion of a product beyond the range of \<open>int\<close> is undefined in C++ and outside
  the model).
  The three \<open>std::vector\<close> members are lists; every index the code writes or reads is
  below \<open>numOvertones\<close>, which never exceeds their length (32 at construction, grown
  to \<open>numOvertones + 2\<close> by \<open>setNumOvertones\<close>; part of the invariant
  \<open>voice_ok\<close> below). A list update beyond the length changes nothing.
  The members \<open>midiNote\<close> and \<open>velocity\<close> are not initialised by the constructor,
  so the constructor of the model takes their initial contents as parameters.
\<close>

record voice =
  sampleRate :: real
  isActive :: bool
  midiNote :: int
  velocity :: real
  phases :: "real list"
  phaseIncrements :: "real list"
  gains :: "real list"
  numOvertones :: int
  attackStage :: bool
  attackLevel :: real
  attackSamples :: int
  attackSamplesRemaining :: int
  releaseStage :: bool
  releaseLevel :: real
  releaseSamples :: int
  releaseSamplesRemaining :: int

text \<open>\<open>static_cast<int>\<close> of a floating-point value truncates towards zero.\<close>

definition static_cast_int :: "real \<Rightarrow> int" where
  "static_cast_int x = (if 0 \<le> x then \<lfloor>x\<rfloor> else \<lceil>x\<rceil>)"

text \<open>
  The literals \<open>0.002f\<close> and \<open>0.02f\<close> are the envelope times the code passes to
  \<open>setAttackTime\<close> and \<open>setReleaseTime\<close>, where the product with the sample rate is
  truncated; they stand for the values of the nearest \<open>float\<close>, just above 0.002 and
  just below 0.02 (at 1000 Hz the release lasts 19 samples, not 20). The other literals only
  enter real arithmetic and are read as the decimals written.
\<close>

definition float_0_002 :: real where
  "float_0_002 = 8589935 / 4294967296"

definition float_0_02 :: real where
  "float_0_02 = 5368709 / 268435456"

definition twoPi :: real where
  "twoPi = 2 * pi"

text \<open>\<open>std::vector::resize(n, x)\<close>: grows with copies of \<open>x\<close>, or cuts.\<close>

definition resize :: "nat \<Rightarrow> 'a \<Rightarrow> 'a list \<Rightarrow> 'a list" where
  "resize n x xs = (if length xs < n then xs @ replicate (n - length xs) x else take n xs)"

definition setAttackTime :: "real \<Rightarrow> voice \<Rightarrow> voice" where
  "setAttackTime seconds v =
     v\<lparr>attackSamples := max 1 (static_cast_int (seconds * sampleRate v))\<rparr>"

definition setReleaseTime :: "real \<Rightarrow> voice \<Rightarrow> voice" where
  "setReleaseTime seconds v =
     v\<lparr>releaseSamples := max 1 (static_cast_int (seconds * sampleRate v))\<rparr>"

text \<open>\<open>std::pow\<close> on a positive base is \<^const>\<open>powr\<close>.\<close>

definition calculateGain :: "real \<Rightarrow> int \<Rightarrow> real \<Rightarrow> real" where
  "calculateGain freq overtoneNumber baseFrequency =
     2 / ((11 / 10) powr (freq / baseFrequency) * (16 / 10) powr (real_of_int overtoneNumber))"

definition baseFrequency :: "int \<Rightarrow> real" where
  "baseFrequency midiNoteNumber = 440 * 2 powr (real_of_int (midiNoteNumber - 69) / 12)"

text \<open>
  The first loop of \<open>startNote\<close>: one iteration, on the voice and the running
  \<open>maxGainSum\<close>.
\<close>

definition startNote_overtone :: "real \<Rightarrow> nat \<Rightarrow> voice \<times> real \<Rightarrow> voice \<times> real" where
  "startNote_overtone baseFreq i = (\<lambda>(v, maxGainSum).
     (let overtoneFreq = baseFreq * (real i + 1);
          g = calculateGain overtoneFreq (int i + 1) baseFreq
      in (v\<lparr>phases := (phases v)[i := 0],
            gains := (gains v)[i := g],
            phaseIncrements := (phaseIncrements v)[i := twoPi * overtoneFreq / sampleRate v]\<rparr>,
          maxGainSum + \<bar>g\<bar>)))"

text \<open>The second loop of \<open>startNote\<close>: one iteration.\<close>

definition normalize_overtone :: "real \<Rightarrow> nat \<Rightarrow> voice \<Rightarrow> voice" where
  "normalize_overtone normalizationFactor i v =
     v\<lparr>gains := (gains v)[i := gains v ! i * normalizationFactor]\<rparr>"

definition startNote :: "int \<Rightarrow> real \<Rightarrow> voice \<Rightarrow> voice" where
  "startNote midiNoteNumber vel v =
     (let v1 = v\<lparr>midiNote := midiNoteNumber, velocity := vel, isActive := True,
                 attackStage := True, attackLevel := 0,
                 attackSamplesRemaining := attackSamples v,
                 releaseStage := False, releaseLevel := 1\<rparr>;
          baseFreq = baseFrequency midiNoteNumber;
          (v2, maxGainSum) = fold (startNote_overtone baseFreq) [0..<nat (numOvertones v1)] (v1, 0)
      in if maxGainSum > 9 / 10
         then fold (normalize_overtone ((9 / 10) / maxGainSum)) [0..<nat (numOvertones v2)] v2
         else v2)"

text \<open>The constructor; \<open>note0\<close> and \<open>vel0\<close> stand for the uninitialised members.\<close>

definition SineWaveVoice :: "real \<Rightarrow> int \<Rightarrow> real \<Rightarrow> voice" where
  "SineWaveVoice sr note0 vel0 =
     setReleaseTime float_0_02 (setAttackTime float_0_002
       \<lparr>sampleRate = sr, isActive = False, midiNote = note0, velocity = vel0,
        phases = resize 32 0 [], phaseIncrements = resize 32 0 [], gains = resize 32 0 [],
        numOvertones = 8,
        attackStage = False, attackLevel = 0, attackSamples = 0, attackSamplesRemaining = 0,
        releaseStage = False, releaseLevel = 0, releaseSamples = 0,
        releaseSamplesRemaining = 0\<rparr>)"

definition setSampleRate :: "real \<Rightarrow> voice \<Rightarrow> voice" where
  "setSampleRate newSampleRate v =
     (let v1 = setReleaseTime float_0_02 (setAttackTime float_0_002 (v\<lparr>sampleRate := newSampleRate\<rparr>))
      in if isActive v1 then startNote (midiNote v1) (velocity v1) v1 else v1)"

text \<open>
  \<open>stopNote\<close>, statement by statement: \<open>attackStage\<close> is cleared before the
  conditional expression for \<open>releaseLevel\<close> reads it.
\<close>

definition stopNote :: "voice \<Rightarrow> voice" where
  "stopNote v =
     (if isActive v \<and> \<not> releaseStage v then
        (let v1 = v\<lparr>releaseStage := True\<rparr>;
             v2 = v1\<lparr>attackStage := False\<rparr>;
             v3 = v2\<lparr>releaseLevel := (if attackStage v2 then attackLevel v2 else 1)\<rparr>
         in v3\<lparr>releaseSamplesRemaining := releaseSamples v3\<rparr>)
      else v)"

definition isNoteActive :: "voice \<Rightarrow> bool" where
  "isNoteActive v = isActive v"

definition isReleasing :: "voice \<Rightarrow> bool" where
  "isReleasing v = (isActive v \<and> releaseStage v)"

definition getReleaseSamplesRemaining :: "voice \<Rightarrow> int" where
  "getReleaseSamplesRemaining v = (if releaseStage v then releaseSamplesRemaining v else 0)"

definition getCurrentAmplitude :: "voice \<Rightarrow> real" where
  "getCurrentAmplitude v =
     (if attackStage v then velocity v * attackLevel v
      else if releaseStage v then velocity v * releaseLevel v
      else velocity v)"

definition getMidiNote :: "voice \<Rightarrow> int" where
  "getMidiNote v = midiNote v"

definition setNumOvertones :: "int \<Rightarrow> int \<Rightarrow> voice \<Rightarrow> voice" where
  "setNumOvertones num0 maxOvertones v =
     (let num = max 1 (min maxOvertones num0)
      in if numOvertones v \<noteq> num then
           (let v1 = v\<lparr>numOvertones := num\<rparr>;
                allocSize = nat (numOvertones v1 + 2);
                v2 = (if length (phases v1) < allocSize
                      then v1\<lparr>phases := resize allocSize 0 (phases v1),
                              phaseIncrements := resize allocSize 0 (phaseIncrements v1),
                              gains := resize allocSize 0 (gains v1)\<rparr>
                      else v1)
            in if isActive v2 \<and> \<not> releaseStage v2
               then startNote (midiNote v2) (velocity v2) v2 else v2)
         else v)"

text \<open>The phase loop of \<open>advancePhase\<close>: one iteration, a single conditional subtraction.\<close>

definition advance_overtone :: "nat \<Rightarrow> voice \<Rightarrow> voice" where
  "advance_overtone i v =
     (let p = phases v ! i + phaseIncrements v ! i
      in v\<lparr>phases := (phases v)[i := (if p \<ge> twoPi then p - twoPi else p)]\<rparr>)"

definition advance_attack :: "voice \<Rightarrow> voice" where
  "advance_attack v =
     (if attackStage v then
        (if attackSamplesRemaining v > 0
         then v\<lparr>attackLevel := 1 - real_of_int (attackSamplesRemaining v) / real_of_int (attackSamples v),
                attackSamplesRemaining := attackSamplesRemaining v - 1\<rparr>
         else v\<lparr>attackStage := False, attackLevel := 1\<rparr>)
      else v)"

definition advance_release :: "voice \<Rightarrow> voice" where
  "advance_release v =
     (if releaseStage v then
        (if releaseSamplesRemaining v > 0
         then v\<lparr>releaseLevel := real_of_int (releaseSamplesRemaining v) / real_of_int (releaseSamples v),
                releaseSamplesRemaining := releaseSamplesRemaining v - 1\<rparr>
         else v\<lparr>isActive := False, releaseStage := False\<rparr>)
      else v)"

definition advancePhase :: "voice \<Rightarrow> voice" where
  "advancePhase v =
     (if \<not> isActive v then v
      else advance_release (advance_attack
             (fold advance_overtone [0..<nat (numOvertones v)] v)))"

text \<open>
  The wavetable: \<open>sineTable[i] = sin(twoPi * i / WAVETABLE_SIZE)\<close>, filled once by
  \<open>initializeWavetable\<close> before any voice exists.
\<close>

definition WAVETABLE_SIZE :: int where
  "WAVETABLE_SIZE = 4096"

definition sineTable :: "real list" where
  "sineTable = map (\<lambda>i. sin (twoPi * real i / real_of_int WAVETABLE_SIZE)) [0..<nat WAVETABLE_SIZE]"

text \<open>The operator \<open>%\<close> of C++ on \<open>int\<close>: the remainder of the division that truncates.\<close>

definition c_rem :: "int \<Rightarrow> int \<Rightarrow> int" where
  "c_rem a b = (if 0 \<le> a then a mod \<bar>b\<bar> else - ((- a) mod \<bar>b\<bar>))"

definition getSample_overtone :: "voice \<Rightarrow> nat \<Rightarrow> real \<Rightarrow> real" where
  "getSample_overtone v i sample =
     (let pos = (phases v ! i / twoPi) * real_of_int WAVETABLE_SIZE;
          index0 = c_rem (static_cast_int pos) WAVETABLE_SIZE;
          index = (if index0 < 0 then index0 + WAVETABLE_SIZE else index0);
          frac = pos - real_of_int index;
          nextIndex = c_rem (index + 1) WAVETABLE_SIZE;
          val = sineTable ! nat index + frac * (sineTable ! nat nextIndex - sineTable ! nat index)
      in sample + val * gains v ! i)"

definition getSample :: "voice \<Rightarrow> real" where
  "getSample v =
     (if \<not> isActive v then 0
      else (let sample = fold (getSample_overtone v) [0..<nat (numOvertones v)] 0
            in if attackStage v then sample * (velocity v * attackLevel v)
               else if releaseStage v then sample * (velocity v * releaseLevel v)
               else sample * velocity v))"

section \<open>The processor (PluginProcessor.cpp, SineWaveAudioProcessor)\<close>

record processor =
  voices :: "voice list"
  currentSampleRate :: real
  currentVoiceScalingFactor :: real
  targetVoiceScalingFactor :: real
  voiceScalingSmoothingCoeff :: real

definition MAX_OVERTONES :: int where
  "MAX_OVERTONES = 32"

definition MAX_VOICES :: nat where
  "MAX_VOICES = 16"

definition SineWaveAudioProcessor :: "int \<Rightarrow> real \<Rightarrow> processor" where
  "SineWaveAudioProcessor note0 vel0 =
     \<lparr>voices = replicate MAX_VOICES (SineWaveVoice 44100 note0 vel0),
      currentSampleRate = 44100,
      currentVoiceScalingFactor = 1,
      targetVoiceScalingFactor = 1,
      voiceScalingSmoothingCoeff = 1 / 10\<rparr>"

definition prepareToPlay :: "real \<Rightarrow> processor \<Rightarrow> processor" where
  "prepareToPlay sr p =
     p\<lparr>currentSampleRate := sr,
       voices := map (setSampleRate sr) (voices p),
       currentVoiceScalingFactor := 1,
       targetVoiceScalingFactor := 1,
       voiceScalingSmoothingCoeff := 1 - exp (- 1 / (float_0_02 * sr))\<rparr>"

text \<open>
  \<open>findFreeVoice\<close> returns a pointer into \<open>voices\<close>; the model returns the index,
  and \<open>None\<close> for \<open>nullptr\<close>. Its three loops in turn.
\<close>

primrec firstInactive :: "voice list \<Rightarrow> nat option" where
  "firstInactive [] = None"
| "firstInactive (v # vs) =
     (if \<not> isNoteActive v then Some 0 else map_option Suc (firstInactive vs))"

definition oldest_step :: "voice list \<Rightarrow> nat \<Rightarrow> nat option \<times> int \<Rightarrow> nat option \<times> int" where
  "oldest_step vs i = (\<lambda>(oldestReleasingVoice, oldestReleaseTime).
     (if isReleasing (vs ! i) then
        (let releaseTime = getReleaseSamplesRemaining (vs ! i)
         in if oldestReleasingVoice = None \<or> releaseTime < oldestReleaseTime
            then (Some i, releaseTime)
            else (oldestReleasingVoice, oldestReleaseTime))
      else (oldestReleasingVoice, oldestReleaseTime)))"

definition quietest_step :: "voice list \<Rightarrow> nat \<Rightarrow> nat \<times> real \<Rightarrow> nat \<times> real" where
  "quietest_step vs i = (\<lambda>(quietestVoice, minAmplitude).
     (let amplitude = getCurrentAmplitude (vs ! i)
      in if amplitude < minAmplitude then (i, amplitude) else (quietestVoice, minAmplitude)))"

definition findFreeVoice :: "voice list \<Rightarrow> nat option" where
  "findFreeVoice vs =
     (case firstInactive vs of
        Some i \<Rightarrow> Some i
      | None \<Rightarrow>
         (case fst (fold (oldest_step vs) [0..<length vs] (None, 0)) of
            Some i \<Rightarrow> Some i
          | None \<Rightarrow> Some (fst (fold (quietest_step vs) [0..<length vs] (0, 1)))))"

primrec findVoiceForNote :: "int \<Rightarrow> voice list \<Rightarrow> nat option" where
  "findVoiceForNote n [] = None"
| "findVoiceForNote n (v # vs) =
     (if isNoteActive v \<and> getMidiNote v = n then Some 0
      else map_option Suc (findVoiceForNote n vs))"

definition getActiveVoiceCount :: "voice list \<Rightarrow> int" where
  "getActiveVoiceCount vs = fold (\<lambda>v count. if isNoteActive v then count + 1 else count) vs 0"

text \<open>
  The MIDI messages as \<open>processBlock\<close> tells them apart (\<open>isNoteOn\<close>,
  \<open>isNoteOff\<close>, \<open>isAllNotesOff\<close>, anything else); \<open>NoteOn\<close> carries the note
  number and \<open>getFloatVelocity()\<close>.
\<close>

datatype midi_message = NoteOn int real | NoteOff int | AllNotesOff | OtherMessage

definition handleMessage :: "midi_message \<Rightarrow> voice list \<Rightarrow> voice list" where
  "handleMessage message vs =
     (case message of
        NoteOn noteNumber floatVelocity \<Rightarrow>
          (let vel = floatVelocity * (8 / 10)
           in case findFreeVoice vs of
                Some i \<Rightarrow> vs[i := startNote noteNumber vel (vs ! i)]
              | None \<Rightarrow> vs)
      | NoteOff noteNumber \<Rightarrow>
          (case findVoiceForNote noteNumber vs of
             Some i \<Rightarrow> vs[i := stopNote (vs ! i)]
           | None \<Rightarrow> vs)
      | AllNotesOff \<Rightarrow> map stopNote vs
      | OtherMessage \<Rightarrow> vs)"

definition computeTarget :: "int \<Rightarrow> int \<Rightarrow> real" where
  "computeTarget activeVoiceCount numOvertones0 =
     (if activeVoiceCount > 0 then
        (let baseScaling = 1 / sqrt (real_of_int activeVoiceCount)
         in if numOvertones0 > 1
            then baseScaling * (7 / 10 + (3 / 10) / log 10 (real_of_int (numOvertones0 + 1)))
            else baseScaling)
      else 1)"

definition softClip :: "real \<Rightarrow> real" where
  "softClip sampleValue =
     (if sampleValue > 7 / 10
      then 7 / 10 + (1 - 7 / 10) * tanh ((sampleValue - 7 / 10) / (1 - 7 / 10))
      else if sampleValue < - (7 / 10)
      then - (7 / 10) + (1 - 7 / 10) * tanh ((sampleValue + 7 / 10) / (1 - 7 / 10))
      else sampleValue)"

definition sumVoices :: "voice list \<Rightarrow> real" where
  "sumVoices vs = fold (\<lambda>v sampleValue. if isNoteActive v then sampleValue + getSample v else sampleValue) vs 0"

text \<open>
  The sample loop of \<open>processBlock\<close> (the branch compiled without \<open>JUCE_USE_SIMD\<close>):
  it returns the processor and the value written at each sample position.
\<close>

primrec renderSamples :: "nat \<Rightarrow> real \<Rightarrow> processor \<Rightarrow> processor \<times> real list" where
  "renderSamples 0 masterAmplitude p = (p, [])"
| "renderSamples (Suc n) masterAmplitude p =
     (let p1 = p\<lparr>currentVoiceScalingFactor := currentVoiceScalingFactor p +
                  voiceScalingSmoothingCoeff p * (targetVoiceScalingFactor p - currentVoiceScalingFactor p)\<rparr>;
          s0 = sumVoices (voices p1);
          s1 = s0 * currentVoiceScalingFactor p1;
          s2 = s1 * masterAmplitude;
          s3 = softClip s2;
          p2 = p1\<lparr>voices := map advancePhase (voices p1)\<rparr>;
          (p3, rest) = renderSamples n masterAmplitude p2
      in (p3, s3 # rest))"

text \<open>
  \<open>processBlock\<close>. The parameters read from the value tree are arguments
  (\<open>amplitude\<close>, \<open>overtones\<close>, \<open>release\<close>), as are the MIDI messages in buffer
  order, the size of the audio buffer and \<open>getTotalNumOutputChannels()\<close>. The buffer
  is returned by channel: cleared, then written at every sample position of the first
  \<open>totalNumOutputChannels\<close> channels.
\<close>

definition updateParameters :: "int \<Rightarrow> real \<Rightarrow> voice \<Rightarrow> voice" where
  "updateParameters numOvertones0 releaseTime v =
     setAttackTime float_0_002 (setReleaseTime releaseTime (setNumOvertones numOvertones0 MAX_OVERTONES v))"

definition clampOvertones :: "real \<Rightarrow> int" where
  "clampOvertones overtonesParam = max 1 (min MAX_OVERTONES (static_cast_int overtonesParam))"

definition handleMidi :: "midi_message list \<Rightarrow> voice list \<Rightarrow> voice list" where
  "handleMidi midiMessages vs = fold handleMessage midiMessages vs"

text \<open>
  The part of \<open>processBlock\<close> before the sample loop: the parameters are pushed to
  every voice, the MIDI messages are handled in order, and the target scaling factor is
  computed from the number of active voices.
\<close>

definition beginBlock :: "real \<Rightarrow> real \<Rightarrow> midi_message list \<Rightarrow> processor \<Rightarrow> processor" where
  "beginBlock overtonesParam releaseTime midiMessages p =
     (let numOvertones0 = clampOvertones overtonesParam;
          vs1 = map (updateParameters numOvertones0 releaseTime) (voices p);
          vs2 = handleMidi midiMessages vs1;
          activeVoiceCount = getActiveVoiceCount vs2
      in p\<lparr>voices := vs2,
           targetVoiceScalingFactor := computeTarget activeVoiceCount numOvertones0\<rparr>)"

definition processBlock ::
  "real \<Rightarrow> real \<Rightarrow> real \<Rightarrow> midi_message list \<Rightarrow> nat \<Rightarrow> nat \<Rightarrow> nat \<Rightarrow> processor
     \<Rightarrow> processor \<times> real list list" where
  "processBlock masterAmplitude overtonesParam releaseTime midiMessages
       numChannels numSamples totalNumOutputChannels p =
     (let p1 = beginBlock overtonesParam releaseTime midiMessages p;
          (p2, written) = renderSamples numSamples masterAmplitude p1
      in (p2, map (\<lambda>channel. if channel < totalNumOutputChannels then written
                               else replicate numSamples 0) [0..<numChannels]))"

section \<open>Definitions for the statements and the proofs\<close>

subsection \<open>The formulas of the specification\<close>

text \<open>
  These three definitions are written from the specification, not from the code; the
  theorems compare them with what the code computes. \<open>spec_gain\<close> is the gain of
  harmonic \<open>k\<close> (\<open>gain_k = 2 / (1.1^(freq/f0) * 1.6^(k+1))\<close> with
  \<open>f0 = 440 * 2^((note-69)/12)\<close> and \<open>freq = f0 * (k+1)\<close>), \<open>spec_softClip\<close>
  the soft clipping (the identity within \<open>[-0.7, 0.7]\<close>, else
  \<open>+/-(0.7 + 0.3*tanh((|x|-0.7)/0.3))\<close> with the sign kept), and \<open>spec_target\<close> the
  target of the compressor.
\<close>

definition spec_gain :: "int \<Rightarrow> nat \<Rightarrow> real" where
  "spec_gain noteNumber k =
     (let f0 = 440 * 2 powr ((real_of_int noteNumber - 69) / 12);
          freq = f0 * (real k + 1)
      in 2 / ((11 / 10) powr (freq / f0) * (16 / 10) powr (real k + 1)))"

definition spec_gain_sum :: "int \<Rightarrow> nat \<Rightarrow> real" where
  "spec_gain_sum noteNumber h = (\<Sum>k<h. \<bar>spec_gain noteNumber k\<bar>)"

definition spec_softClip :: "real \<Rightarrow> real" where
  "spec_softClip x =
     (if \<bar>x\<bar> \<le> 7 / 10 then x
      else sgn x * (7 / 10 + (3 / 10) * tanh ((\<bar>x\<bar> - 7 / 10) / (3 / 10))))"

definition spec_target :: "int \<Rightarrow> int \<Rightarrow> real" where
  "spec_target activeVoiceCount harmonicCount =
     (if activeVoiceCount = 0 then 1
      else (let base = 1 / sqrt (real_of_int activeVoiceCount)
            in if harmonicCount > 1
               then base * (7 / 10 + (3 / 10) / log 10 (real_of_int harmonicCount + 1))
               else base))"

subsection \<open>The loops in closed form\<close>

text \<open>
  \<open>upd_prefix f n xs\<close> is the list a loop over \<open>i < n\<close> leaves when it stores
  \<open>f i\<close> at index \<open>i\<close> (indices beyond the list are not stored). \<open>wrapped\<close> is
  the phase one iteration of the loop of \<open>advancePhase\<close> stores, \<open>rawGain\<close> the gain
  one iteration of the first loop of \<open>startNote\<close> stores and \<open>rawGainSum\<close> its
  \<open>maxGainSum\<close>; \<open>startedGains\<close> is the gain vector after both loops.
  \<open>smoothedFactor\<close> and \<open>renderStep\<close> are the scaling factor and the processor after
  one iteration of the sample loop (lemmas \<open>renderSamples_Suc\<close>, \<open>renderSamples_state\<close>).
\<close>

definition upd_prefix :: "(nat \<Rightarrow> 'a) \<Rightarrow> nat \<Rightarrow> 'a list \<Rightarrow> 'a list" where
  "upd_prefix f n xs = map (\<lambda>i. if i < n then f i else xs ! i) [0..<length xs]"

definition wrapped :: "voice \<Rightarrow> nat \<Rightarrow> real" where
  "wrapped v i = (let p = phases v ! i + phaseIncrements v ! i in if p \<ge> twoPi then p - twoPi else p)"

definition rawGain :: "real \<Rightarrow> nat \<Rightarrow> real" where
  "rawGain baseFreq i = calculateGain (baseFreq * (real i + 1)) (int i + 1) baseFreq"

definition rawGainSum :: "real \<Rightarrow> nat \<Rightarrow> real" where
  "rawGainSum baseFreq n = (\<Sum>i<n. \<bar>rawGain baseFreq i\<bar>)"

definition startedGains :: "real \<Rightarrow> nat \<Rightarrow> real list \<Rightarrow> real list" where
  "startedGains b n gs =
     (if rawGainSum b n > 9 / 10
      then upd_prefix (\<lambda>i. upd_prefix (rawGain b) n gs ! i * ((9 / 10) / rawGainSum b n)) n
             (upd_prefix (rawGain b) n gs)
      else upd_prefix (rawGain b) n gs)"

definition smoothedFactor :: "processor \<Rightarrow> real" where
  "smoothedFactor p = currentVoiceScalingFactor p +
     voiceScalingSmoothingCoeff p * (targetVoiceScalingFactor p - currentVoiceScalingFactor p)"

definition renderStep :: "processor \<Rightarrow> processor" where
  "renderStep p = p\<lparr>currentVoiceScalingFactor := smoothedFactor p,
                      voices := map advancePhase (voices p)\<rparr>"

subsection \<open>Invariants\<close>

text \<open>
  The invariants of the second and third loop of \<open>findFreeVoice\<close> after \<open>n\<close>
  voices, and the invariant \<open>voice_ok\<close> of every voice of the pool: the envelope totals
  are positive, the three vectors have one length that holds \<open>numOvertones\<close> entries, an
  active voice has a velocity in \<open>[0, 0.8]\<close> and the attack level stays at most 1.
\<close>

definition oldest_inv :: "voice list \<Rightarrow> nat \<Rightarrow> nat option \<times> int \<Rightarrow> bool" where
  "oldest_inv vs n = (\<lambda>(best, t).
     (case best of
        None \<Rightarrow> (\<forall>j<n. \<not> isReleasing (vs ! j))
      | Some i \<Rightarrow> i < n \<and> isReleasing (vs ! i) \<and> t = getReleaseSamplesRemaining (vs ! i)
          \<and> (\<forall>j<n. isReleasing (vs ! j) \<longrightarrow> t \<le> getReleaseSamplesRemaining (vs ! j))))"

definition quietest_inv :: "voice list \<Rightarrow> nat \<Rightarrow> nat \<times> real \<Rightarrow> bool" where
  "quietest_inv vs n = (\<lambda>(q, m).
     (\<forall>j<n. m \<le> getCurrentAmplitude (vs ! j))
     \<and> ((q = 0 \<and> m = 1) \<or> (q < n \<and> m = getCurrentAmplitude (vs ! q) \<and> m < 1)))"

definition voice_ok :: "voice \<Rightarrow> bool" where
  "voice_ok v =
     (1 \<le> attackSamples v \<and> 1 \<le> releaseSamples v
      \<and> 1 \<le> numOvertones v \<and> numOvertones v \<le> MAX_OVERTONES
      \<and> nat (numOvertones v) \<le> length (phases v)
      \<and> length (phaseIncrements v) = length (phases v)
      \<and> length (gains v) = length (phases v)
      \<and> (isActive v \<longrightarrow> 0 \<le> velocity v \<and> velocity v \<le> 8 / 10)
      \<and> (attackStage v \<longrightarrow> attackLevel v \<le> 1))"

subsection \<open>The pools of voices the processor can reach\<close>

text \<open>
  A MIDI message is valid when a note-on carries a velocity in \<open>[0, 1]\<close>, the range
  of \<open>getFloatVelocity()\<close>. The pools reachable from the constructor are closed under
  what \<open>prepareToPlay\<close> and \<open>processBlock\<close> do to the voices: \<open>setSampleRate\<close>
  on every voice, the parameter update of every voice, one handled message, and
  \<open>advancePhase\<close> on every voice (lemmas \<open>reachable_prepareToPlay\<close>,
  \<open>reachable_processBlock\<close>).
\<close>

definition valid_message :: "midi_message \<Rightarrow> bool" where
  "valid_message message =
     (case message of NoteOn noteNumber floatVelocity \<Rightarrow> 0 \<le> floatVelocity \<and> floatVelocity \<le> 1
      | _ \<Rightarrow> True)"

inductive reachable_voices :: "voice list \<Rightarrow> bool" where
  constructed: "reachable_voices (voices (SineWaveAudioProcessor note0 vel0))"
| prepared: "reachable_voices vs \<Longrightarrow> reachable_voices (map (setSampleRate sr) vs)"
| updated: "reachable_voices vs \<Longrightarrow> reachable_voices (map (updateParameters numOvertones0 releaseTime) vs)"
| handled: "reachable_voices vs \<Longrightarrow> valid_message message \<Longrightarrow> reachable_voices (handleMessage message vs)"
| advanced: "reachable_voices vs \<Longrightarrow> reachable_voices (map advancePhase vs)"

subsection \<open>Voices and pools of the examples\<close>

text \<open>
  Concrete voices and pools, each built by the operations of the code: a voice in the
  middle of a 2-sample attack, a voice at the start of a 4-sample release, a voice playing
  note 117 with 32 overtones, the pool as constructed, the pool after 16 note-ons, and that
  pool after a note-off.
\<close>

definition voiceInAttack :: voice where
  "voiceInAttack = (advancePhase ^^ 2) (startNote 69 (8 / 10) (SineWaveVoice 1000 0 0))"

definition voiceInRelease :: voice where
  "voiceInRelease = stopNote (startNote 69 (8 / 10) (setReleaseTime (4 / 1000) (SineWaveVoice 1000 0 0)))"

definition voiceNote117 :: voice where
  "voiceNote117 = startNote 117 (8 / 10) (setNumOvertones 32 32 (SineWaveVoice 44100 0 0))"

definition startedVoice :: voice where
  "startedVoice = startNote 60 (1 * (8 / 10)) (SineWaveVoice 44100 0 0)"

definition poolInitial :: "voice list" where
  "poolInitial = voices (SineWaveAudioProcessor 0 0)"

definition poolFull :: "voice list" where
  "poolFull = handleMidi (replicate 16 (NoteOn 60 1)) poolInitial"

definition poolReleasing :: "voice list" where
  "poolReleasing = handleMessage (NoteOff 60) poolFull"

section \<open>Lemmas\<close>

subsection \<open>The loops of the voice in closed form\<close>

lemma length_upd_prefix [simp]: "length (upd_prefix f n xs) = length xs"
  by (simp add: upd_prefix_def)

lemma nth_upd_prefix: "i < length xs \<Longrightarrow> upd_prefix f n xs ! i = (if i < n then f i else xs ! i)"
  by (simp add: upd_prefix_def)

lemma upd_prefix_0 [simp]: "upd_prefix f 0 xs = xs"
  by (simp add: upd_prefix_def map_nth)

lemma upd_prefix_Suc: "(upd_prefix f n xs)[n := f n] = upd_prefix f (Suc n) xs"
  by (rule nth_equalityI) (auto simp: nth_upd_prefix nth_list_update less_Suc_eq)

lemma upd_prefix_step:
  assumes "\<And>ys. length ys = length xs \<Longrightarrow> n < length xs \<Longrightarrow> ys ! n = xs ! n \<Longrightarrow> g ys = f n"
  shows "(upd_prefix f n xs)[n := g (upd_prefix f n xs)] = upd_prefix f (Suc n) xs"
proof (cases "n < length xs")
  case True
  then have "g (upd_prefix f n xs) = f n"
    by (intro assms) (simp_all add: nth_upd_prefix)
  then show ?thesis by (simp add: upd_prefix_Suc)
next
  case False
  then show ?thesis
    by (intro nth_equalityI) (simp_all add: nth_upd_prefix)
qed

lemma fold_upt_Suc: "fold f [0..<Suc n] v = f n (fold f [0..<n] v)"
  by simp

lemma fold_advance_overtone:
  "fold advance_overtone [0..<n] v = v\<lparr>phases := upd_prefix (wrapped v) n (phases v)\<rparr>"
proof (induction n)
  case 0
  then show ?case by simp
next
  case (Suc n)
  let ?P = "upd_prefix (wrapped v) n (phases v)"
  have "fold advance_overtone [0..<Suc n] v = advance_overtone n (v\<lparr>phases := ?P\<rparr>)"
    by (simp only: fold_upt_Suc Suc)
  also have "\<dots> = v\<lparr>phases := ?P[n := (let p = ?P ! n + phaseIncrements v ! n in if p \<ge> twoPi then p - twoPi else p)]\<rparr>"
    by (simp add: advance_overtone_def Let_def)
  also have "?P[n := (let p = ?P ! n + phaseIncrements v ! n in if p \<ge> twoPi then p - twoPi else p)]
     = upd_prefix (wrapped v) (Suc n) (phases v)"
    by (rule upd_prefix_step [where g = "\<lambda>ys. (let p = ys ! n + phaseIncrements v ! n in if p \<ge> twoPi then p - twoPi else p)"])
       (simp add: wrapped_def)
  finally show ?case .
qed

lemma fold_startNote_overtone:
  "fold (startNote_overtone b) [0..<n] (v, s) =
     (v\<lparr>phases := upd_prefix (\<lambda>i. 0) n (phases v),
        gains := upd_prefix (rawGain b) n (gains v),
        phaseIncrements := upd_prefix (\<lambda>i. twoPi * (b * (real i + 1)) / sampleRate v) n (phaseIncrements v)\<rparr>,
      s + rawGainSum b n)"
proof (induction n)
  case 0
  then show ?case by (simp add: rawGainSum_def)
next
  case (Suc n)
  have p: "(upd_prefix (\<lambda>i. 0) n (phases v))[n := 0] = upd_prefix (\<lambda>i. 0) (Suc n) (phases v)"
    by (rule upd_prefix_Suc [of "\<lambda>i. 0"])
  have q: "(upd_prefix (\<lambda>i. twoPi * (b * (real i + 1)) / sampleRate v) n (phaseIncrements v))
             [n := twoPi * (b * (real n + 1)) / sampleRate v]
           = upd_prefix (\<lambda>i. twoPi * (b * (real i + 1)) / sampleRate v) (Suc n) (phaseIncrements v)"
    by (rule upd_prefix_Suc [of "\<lambda>i. twoPi * (b * (real i + 1)) / sampleRate v"])
  show ?case
    by (simp only: fold_upt_Suc Suc)
       (simp add: startNote_overtone_def Let_def rawGain_def [symmetric] rawGainSum_def
          upd_prefix_Suc p q)
qed

lemma fold_normalize_overtone:
  "fold (normalize_overtone c) [0..<n] v = v\<lparr>gains := upd_prefix (\<lambda>i. gains v ! i * c) n (gains v)\<rparr>"
proof (induction n)
  case 0
  then show ?case by simp
next
  case (Suc n)
  let ?G = "upd_prefix (\<lambda>i. gains v ! i * c) n (gains v)"
  have "fold (normalize_overtone c) [0..<Suc n] v = normalize_overtone c n (v\<lparr>gains := ?G\<rparr>)"
    by (simp only: fold_upt_Suc Suc)
  also have "\<dots> = v\<lparr>gains := ?G[n := ?G ! n * c]\<rparr>"
    by (simp add: normalize_overtone_def)
  also have "?G[n := ?G ! n * c] = upd_prefix (\<lambda>i. gains v ! i * c) (Suc n) (gains v)"
    by (rule upd_prefix_step [where g = "\<lambda>ys. ys ! n * c"]) simp
  finally show ?case .
qed

lemma startNote_eq:
  "startNote m vel v =
     v\<lparr>midiNote := m, velocity := vel, isActive := True,
       attackStage := True, attackLevel := 0,
       attackSamplesRemaining := attackSamples v,
       releaseStage := False, releaseLevel := 1,
       phases := upd_prefix (\<lambda>i. 0) (nat (numOvertones v)) (phases v),
       gains := startedGains (baseFrequency m) (nat (numOvertones v)) (gains v),
       phaseIncrements := upd_prefix (\<lambda>i. twoPi * (baseFrequency m * (real i + 1)) / sampleRate v)
          (nat (numOvertones v)) (phaseIncrements v)\<rparr>"
  by (simp add: startNote_def Let_def fold_startNote_overtone fold_normalize_overtone startedGains_def)

lemma advancePhase_eq:
  "advancePhase v =
     (if \<not> isActive v then v
      else advance_release (advance_attack (v\<lparr>phases := upd_prefix (wrapped v) (nat (numOvertones v)) (phases v)\<rparr>)))"
  by (simp add: advancePhase_def fold_advance_overtone)

subsection \<open>The envelope, one call of \<open>advancePhase\<close> at a time\<close>

lemma advancePhase_attack_step:
  assumes "isActive v" "attackStage v" "\<not> releaseStage v" "0 < attackSamplesRemaining v"
  shows "isActive (advancePhase v) \<and> attackStage (advancePhase v) \<and> \<not> releaseStage (advancePhase v)
    \<and> attackSamplesRemaining (advancePhase v) = attackSamplesRemaining v - 1
    \<and> attackSamples (advancePhase v) = attackSamples v
    \<and> attackLevel (advancePhase v) = 1 - real_of_int (attackSamplesRemaining v) / real_of_int (attackSamples v)"
  using assms by (simp add: advancePhase_eq advance_attack_def advance_release_def)

lemma advancePhase_attack_end:
  assumes "isActive v" "attackStage v" "\<not> releaseStage v" "attackSamplesRemaining v \<le> 0"
  shows "isActive (advancePhase v) \<and> \<not> attackStage (advancePhase v) \<and> \<not> releaseStage (advancePhase v)
    \<and> attackLevel (advancePhase v) = 1"
  using assms by (simp add: advancePhase_eq advance_attack_def advance_release_def)

lemma attack_run:
  assumes "isActive v" "attackStage v" "\<not> releaseStage v"
    and "attackSamplesRemaining v = int k + m" "0 \<le> m"
  shows "isActive ((advancePhase ^^ k) v) \<and> attackStage ((advancePhase ^^ k) v)
    \<and> \<not> releaseStage ((advancePhase ^^ k) v)
    \<and> attackSamplesRemaining ((advancePhase ^^ k) v) = m
    \<and> attackSamples ((advancePhase ^^ k) v) = attackSamples v
    \<and> (0 < k \<longrightarrow> attackLevel ((advancePhase ^^ k) v)
          = 1 - real_of_int (m + 1) / real_of_int (attackSamples v))"
  using assms(4,5)
proof (induction k arbitrary: m)
  case 0
  then show ?case using assms(1-3) by simp
next
  case (Suc k)
  let ?w = "(advancePhase ^^ k) v"
  have ih: "isActive ?w \<and> attackStage ?w \<and> \<not> releaseStage ?w
    \<and> attackSamplesRemaining ?w = m + 1 \<and> attackSamples ?w = attackSamples v"
    using Suc.IH [of "m + 1"] Suc.prems by simp
  then have "0 < attackSamplesRemaining ?w" using Suc.prems by simp
  with ih show ?case
    using advancePhase_attack_step [of ?w] by simp
qed

lemma advancePhase_release_step:
  assumes "isActive v" "\<not> attackStage v" "releaseStage v" "0 < releaseSamplesRemaining v"
  shows "isActive (advancePhase v) \<and> \<not> attackStage (advancePhase v) \<and> releaseStage (advancePhase v)
    \<and> releaseSamplesRemaining (advancePhase v) = releaseSamplesRemaining v - 1
    \<and> releaseSamples (advancePhase v) = releaseSamples v
    \<and> releaseLevel (advancePhase v) = real_of_int (releaseSamplesRemaining v) / real_of_int (releaseSamples v)"
  using assms by (simp add: advancePhase_eq advance_attack_def advance_release_def)

lemma advancePhase_release_end:
  assumes "isActive v" "\<not> attackStage v" "releaseStage v" "releaseSamplesRemaining v \<le> 0"
  shows "\<not> isActive (advancePhase v) \<and> \<not> releaseStage (advancePhase v)"
  using assms by (simp add: advancePhase_eq advance_attack_def advance_release_def)

lemma release_run:
  assumes "isActive v" "\<not> attackStage v" "releaseStage v"
    and "releaseSamplesRemaining v = int k + m" "0 \<le> m"
  shows "isActive ((advancePhase ^^ k) v) \<and> \<not> attackStage ((advancePhase ^^ k) v)
    \<and> releaseStage ((advancePhase ^^ k) v)
    \<and> releaseSamplesRemaining ((advancePhase ^^ k) v) = m
    \<and> releaseSamples ((advancePhase ^^ k) v) = releaseSamples v
    \<and> (0 < k \<longrightarrow> releaseLevel ((advancePhase ^^ k) v)
          = real_of_int (m + 1) / real_of_int (releaseSamples v))"
  using assms(4,5)
proof (induction k arbitrary: m)
  case 0
  then show ?case using assms(1-3) by simp
next
  case (Suc k)
  let ?w = "(advancePhase ^^ k) v"
  have ih: "isActive ?w \<and> \<not> attackStage ?w \<and> releaseStage ?w
    \<and> releaseSamplesRemaining ?w = m + 1 \<and> releaseSamples ?w = releaseSamples v"
    using Suc.IH [of "m + 1"] Suc.prems by simp
  then have "0 < releaseSamplesRemaining ?w" using Suc.prems by simp
  with ih show ?case
    using advancePhase_release_step [of ?w] by simp
qed

lemma stopNote_fields:
  assumes "isActive v" "\<not> releaseStage v"
  shows "isActive (stopNote v) \<and> \<not> attackStage (stopNote v) \<and> releaseStage (stopNote v)
     \<and> releaseLevel (stopNote v) = 1
     \<and> releaseSamplesRemaining (stopNote v) = releaseSamples v
     \<and> releaseSamples (stopNote v) = releaseSamples v"
  using assms by (simp add: stopNote_def)

lemma v0_samples:
  "attackSamples (SineWaveVoice 1000 note0 vel0) = 2"
  "releaseSamples (SineWaveVoice 1000 note0 vel0) = 19"
  "isActive (SineWaveVoice 1000 note0 vel0) = False"
  by (simp_all add: SineWaveVoice_def setAttackTime_def setReleaseTime_def float_0_002_def float_0_02_def static_cast_int_def)

lemma voiceInAttack_fields:
  "isActive voiceInAttack" "attackStage voiceInAttack" "\<not> releaseStage voiceInAttack"
  "attackLevel voiceInAttack = 1 / 2"
proof -
  let ?s = "startNote 69 (8 / 10) (SineWaveVoice 1000 0 0)"
  have s: "isActive ?s" "attackStage ?s" "\<not> releaseStage ?s"
    "attackSamplesRemaining ?s = int 2 + 0" "attackSamples ?s = 2"
    by (simp_all add: startNote_eq v0_samples)
  show "isActive voiceInAttack" "attackStage voiceInAttack" "\<not> releaseStage voiceInAttack"
    "attackLevel voiceInAttack = 1 / 2"
    using attack_run [OF s(1-4)] s(5) by (simp_all add: voiceInAttack_def)
qed

lemma stopNote_noop: "\<not> isNoteActive v \<or> isReleasing v \<Longrightarrow> stopNote v = v"
  by (auto simp: stopNote_def isNoteActive_def isReleasing_def)

subsection \<open>What \<open>setAttackTime\<close> and \<open>setReleaseTime\<close> leave alone\<close>

lemma wrapped_frame:
  "wrapped (v\<lparr>releaseSamples := a, releaseLevel := b\<rparr>) = wrapped v"
  "wrapped (v\<lparr>attackSamples := c, attackLevel := d\<rparr>) = wrapped v"
  by (simp_all add: wrapped_def fun_eq_iff)

lemma advancePhase_release_frame:
  "(advancePhase (v\<lparr>releaseSamples := a, releaseLevel := b\<rparr>))\<lparr>releaseSamples := a', releaseLevel := b'\<rparr>
     = (advancePhase v)\<lparr>releaseSamples := a', releaseLevel := b'\<rparr>"
  by (simp add: advancePhase_eq advance_attack_def advance_release_def wrapped_frame)

lemma advancePhase_attack_frame:
  "(advancePhase (v\<lparr>attackSamples := a, attackLevel := b\<rparr>))\<lparr>attackSamples := a', attackLevel := b'\<rparr>
     = (advancePhase v)\<lparr>attackSamples := a', attackLevel := b'\<rparr>"
  by (simp add: advancePhase_eq advance_attack_def advance_release_def wrapped_frame)

lemma funpow_release_frame:
  "((advancePhase ^^ k) (v\<lparr>releaseSamples := a, releaseLevel := b\<rparr>))\<lparr>releaseSamples := a', releaseLevel := b'\<rparr>
     = ((advancePhase ^^ k) v)\<lparr>releaseSamples := a', releaseLevel := b'\<rparr>"
proof (induction k arbitrary: a' b')
  case 0
  then show ?case by simp
next
  case (Suc k)
  let ?X = "(advancePhase ^^ k) (v\<lparr>releaseSamples := a, releaseLevel := b\<rparr>)"
  let ?Y = "(advancePhase ^^ k) v"
  have "(advancePhase ?X)\<lparr>releaseSamples := a', releaseLevel := b'\<rparr>
      = (advancePhase (?X\<lparr>releaseSamples := 0, releaseLevel := 0\<rparr>))\<lparr>releaseSamples := a', releaseLevel := b'\<rparr>"
    by (simp only: advancePhase_release_frame)
  also have "\<dots> = (advancePhase (?Y\<lparr>releaseSamples := 0, releaseLevel := 0\<rparr>))\<lparr>releaseSamples := a', releaseLevel := b'\<rparr>"
    by (simp only: Suc.IH)
  also have "\<dots> = (advancePhase ?Y)\<lparr>releaseSamples := a', releaseLevel := b'\<rparr>"
    by (simp only: advancePhase_release_frame)
  finally show ?case by simp
qed

lemma funpow_attack_frame:
  "((advancePhase ^^ k) (v\<lparr>attackSamples := a, attackLevel := b\<rparr>))\<lparr>attackSamples := a', attackLevel := b'\<rparr>
     = ((advancePhase ^^ k) v)\<lparr>attackSamples := a', attackLevel := b'\<rparr>"
proof (induction k arbitrary: a' b')
  case 0
  then show ?case by simp
next
  case (Suc k)
  let ?X = "(advancePhase ^^ k) (v\<lparr>attackSamples := a, attackLevel := b\<rparr>)"
  let ?Y = "(advancePhase ^^ k) v"
  have "(advancePhase ?X)\<lparr>attackSamples := a', attackLevel := b'\<rparr>
      = (advancePhase (?X\<lparr>attackSamples := 0, attackLevel := 0\<rparr>))\<lparr>attackSamples := a', attackLevel := b'\<rparr>"
    by (simp only: advancePhase_attack_frame)
  also have "\<dots> = (advancePhase (?Y\<lparr>attackSamples := 0, attackLevel := 0\<rparr>))\<lparr>attackSamples := a', attackLevel := b'\<rparr>"
    by (simp only: Suc.IH)
  also have "\<dots> = (advancePhase ?Y)\<lparr>attackSamples := a', attackLevel := b'\<rparr>"
    by (simp only: advancePhase_attack_frame)
  finally show ?case by simp
qed

lemma setReleaseTime_frame:
  "((advancePhase ^^ k) (setReleaseTime s v))\<lparr>releaseSamples := a, releaseLevel := b\<rparr>
     = ((advancePhase ^^ k) v)\<lparr>releaseSamples := a, releaseLevel := b\<rparr>"
proof -
  have "setReleaseTime s v = v\<lparr>releaseSamples := max 1 (static_cast_int (s * sampleRate v)), releaseLevel := releaseLevel v\<rparr>"
    by (simp add: setReleaseTime_def)
  then show ?thesis
    by (simp only: funpow_release_frame)
qed

lemma setAttackTime_frame:
  "((advancePhase ^^ k) (setAttackTime s v))\<lparr>attackSamples := a, attackLevel := b\<rparr>
     = ((advancePhase ^^ k) v)\<lparr>attackSamples := a, attackLevel := b\<rparr>"
proof -
  have "setAttackTime s v = v\<lparr>attackSamples := max 1 (static_cast_int (s * sampleRate v)), attackLevel := attackLevel v\<rparr>"
    by (simp add: setAttackTime_def)
  then show ?thesis
    by (simp only: funpow_attack_frame)
qed

lemma release_ramp_new_total:
  assumes "isActive v" "releaseStage v" "0 < releaseSamplesRemaining v"
  shows "releaseLevel (advancePhase (setReleaseTime s v))
     = real_of_int (releaseSamplesRemaining v) / real_of_int (max 1 (static_cast_int (s * sampleRate v)))"
  using assms
  by (simp add: advancePhase_eq advance_attack_def advance_release_def setReleaseTime_def)

lemma advancePhase_totals:
  "releaseSamples (advancePhase v) = releaseSamples v"
  "attackSamples (advancePhase v) = attackSamples v"
  by (simp_all add: advancePhase_eq advance_attack_def advance_release_def)

lemma funpow_advancePhase_totals:
  "releaseSamples ((advancePhase ^^ k) v) = releaseSamples v
   \<and> attackSamples ((advancePhase ^^ k) v) = attackSamples v"
  by (induction k) (simp_all add: advancePhase_totals)

lemma advancePhase_releasing_step:
  assumes "isActive v" "releaseStage v" "0 < releaseSamplesRemaining v"
  shows "isActive (advancePhase v) \<and> releaseStage (advancePhase v)
    \<and> releaseSamplesRemaining (advancePhase v) = releaseSamplesRemaining v - 1
    \<and> releaseLevel (advancePhase v)
        = real_of_int (releaseSamplesRemaining v) / real_of_int (releaseSamples v)"
  using assms by (simp add: advancePhase_eq advance_attack_def advance_release_def)

lemma releasing_run:
  assumes "isActive v" "releaseStage v"
    and "releaseSamplesRemaining v = int k + m" "0 \<le> m"
  shows "isActive ((advancePhase ^^ k) v) \<and> releaseStage ((advancePhase ^^ k) v)
    \<and> releaseSamplesRemaining ((advancePhase ^^ k) v) = m
    \<and> (0 < k \<longrightarrow> releaseLevel ((advancePhase ^^ k) v)
          = real_of_int (m + 1) / real_of_int (releaseSamples v))"
  using assms(3,4)
proof (induction k arbitrary: m)
  case 0
  then show ?case using assms(1,2) by simp
next
  case (Suc k)
  let ?w = "(advancePhase ^^ k) v"
  have ih: "isActive ?w \<and> releaseStage ?w \<and> releaseSamplesRemaining ?w = m + 1"
    using Suc.IH [of "m + 1"] Suc.prems by simp
  then have "0 < releaseSamplesRemaining ?w" using Suc.prems by simp
  with ih show ?case
    using advancePhase_releasing_step [of ?w] funpow_advancePhase_totals [of k v] by simp
qed

lemma release_ramp_after_setReleaseTime:
  assumes "isActive v" "releaseStage v" "0 < k" "int k \<le> releaseSamplesRemaining v"
  shows "releaseLevel ((advancePhase ^^ k) (setReleaseTime s v))
     = real_of_int (releaseSamplesRemaining v - int k + 1)
         / real_of_int (max 1 (static_cast_int (s * sampleRate v)))"
proof -
  let ?u = "setReleaseTime s v"
  have u: "isActive ?u" "releaseStage ?u"
    "releaseSamplesRemaining ?u = int k + (releaseSamplesRemaining v - int k)"
    "0 \<le> releaseSamplesRemaining v - int k"
    "releaseSamples ?u = max 1 (static_cast_int (s * sampleRate v))"
    using assms by (simp_all add: setReleaseTime_def)
  from releasing_run [OF u(1-4)] assms(3) u(5) show ?thesis by simp
qed

lemma attack_ramp_after_setAttackTime:
  assumes "isActive v" "attackStage v" "\<not> releaseStage v" "0 < k" "int k \<le> attackSamplesRemaining v"
  shows "attackLevel ((advancePhase ^^ k) (setAttackTime s v))
     = 1 - real_of_int (attackSamplesRemaining v - int k + 1)
             / real_of_int (max 1 (static_cast_int (s * sampleRate v)))"
proof -
  let ?u = "setAttackTime s v"
  have u: "isActive ?u" "attackStage ?u" "\<not> releaseStage ?u"
    "attackSamplesRemaining ?u = int k + (attackSamplesRemaining v - int k)"
    "0 \<le> attackSamplesRemaining v - int k"
    "attackSamples ?u = max 1 (static_cast_int (s * sampleRate v))"
    using assms by (simp_all add: setAttackTime_def)
  from attack_run [OF u(1-5)] assms(4) u(6) show ?thesis by simp
qed

lemma totals_after_setters:
  "releaseSamples ((advancePhase ^^ k) (setReleaseTime s v)) = max 1 (static_cast_int (s * sampleRate v))"
  "attackSamples ((advancePhase ^^ k) (setAttackTime s v)) = max 1 (static_cast_int (s * sampleRate v))"
  by (simp_all add: funpow_advancePhase_totals setReleaseTime_def setAttackTime_def)

lemma later_startNote_loads_total:
  "attackSamplesRemaining (startNote m vel ((advancePhase ^^ k) (setAttackTime s v)))
     = max 1 (static_cast_int (s * sampleRate v))"
  by (simp add: startNote_eq totals_after_setters)

lemma later_stopNote_loads_total:
  assumes "isActive ((advancePhase ^^ k) (setReleaseTime s v))"
    "\<not> releaseStage ((advancePhase ^^ k) (setReleaseTime s v))"
  shows "releaseSamplesRemaining (stopNote ((advancePhase ^^ k) (setReleaseTime s v)))
     = max 1 (static_cast_int (s * sampleRate v))"
  using stopNote_fields [OF assms] by (simp add: totals_after_setters)

lemma release_ramp_unchanged:
  assumes "isActive v" "releaseStage v" "0 < k" "int k \<le> releaseSamplesRemaining v"
  shows "releaseLevel ((advancePhase ^^ k) v)
     = real_of_int (releaseSamplesRemaining v - int k + 1) / real_of_int (releaseSamples v)"
proof -
  have "releaseSamplesRemaining v = int k + (releaseSamplesRemaining v - int k)"
    "0 \<le> releaseSamplesRemaining v - int k"
    using assms(4) by simp_all
  from releasing_run [OF assms(1,2) this] assms(3) show ?thesis by simp
qed

lemma attack_ramp_unchanged:
  assumes "isActive v" "attackStage v" "\<not> releaseStage v" "0 < k" "int k \<le> attackSamplesRemaining v"
  shows "attackLevel ((advancePhase ^^ k) v)
     = 1 - real_of_int (attackSamplesRemaining v - int k + 1) / real_of_int (attackSamples v)"
proof -
  have "attackSamplesRemaining v = int k + (attackSamplesRemaining v - int k)"
    "0 \<le> attackSamplesRemaining v - int k"
    using assms(5) by simp_all
  from attack_run [OF assms(1-3) this] assms(4) show ?thesis by simp
qed

lemma voiceInRelease_fields:
  "isActive voiceInRelease" "releaseStage voiceInRelease" "\<not> attackStage voiceInRelease"
  "releaseSamplesRemaining voiceInRelease = 4" "releaseSamples voiceInRelease = 4"
  "sampleRate voiceInRelease = 1000"
  by (simp_all add: voiceInRelease_def stopNote_def startNote_eq setReleaseTime_def
      SineWaveVoice_def setAttackTime_def static_cast_int_def float_0_002_def float_0_02_def)

subsection \<open>The phases\<close>

lemma baseFrequency_117: "baseFrequency 117 = 7040"
  by (simp add: baseFrequency_def)

lemma setNumOvertones_32:
  "numOvertones (setNumOvertones 32 32 (SineWaveVoice 44100 0 0)) = 32"
  "length (phases (setNumOvertones 32 32 (SineWaveVoice 44100 0 0))) = 34"
  "length (phaseIncrements (setNumOvertones 32 32 (SineWaveVoice 44100 0 0))) = 34"
  "sampleRate (setNumOvertones 32 32 (SineWaveVoice 44100 0 0)) = 44100"
  by (simp_all add: setNumOvertones_def SineWaveVoice_def setAttackTime_def setReleaseTime_def float_0_002_def float_0_02_def resize_def Let_def)

lemma voiceNote117_fields:
  "isActive voiceNote117" "numOvertones voiceNote117 = 32"
  "length (phases voiceNote117) = 34"
  "phases voiceNote117 ! 31 = 0"
  "phaseIncrements voiceNote117 ! 31 = twoPi * 225280 / 44100"
  by (simp_all add: voiceNote117_def startNote_eq setNumOvertones_32 nth_upd_prefix baseFrequency_117)

lemma advancePhase_wraps_small_increments:
  assumes "i < nat (numOvertones v)" "i < length (phases v)"
    and "0 \<le> phases v ! i" "phases v ! i < twoPi"
    and "0 \<le> phaseIncrements v ! i" "phaseIncrements v ! i < twoPi"
  shows "0 \<le> phases (advancePhase v) ! i \<and> phases (advancePhase v) ! i < twoPi"
proof (cases "isActive v")
  case False
  then show ?thesis using assms by (simp add: advancePhase_def)
next
  case True
  then have "phases (advancePhase v) ! i = wrapped v i"
    using assms(1,2)
    by (simp add: advancePhase_eq advance_attack_def advance_release_def nth_upd_prefix)
  then show ?thesis
    using assms(3-6) by (simp add: wrapped_def Let_def)
qed

subsection \<open>The gains after \<open>startNote\<close>\<close>

lemma rawGain_spec: "rawGain (baseFrequency noteNumber) k = spec_gain noteNumber k"
  by (simp add: rawGain_def spec_gain_def calculateGain_def baseFrequency_def Let_def add.commute)

lemma rawGainSum_spec: "rawGainSum (baseFrequency noteNumber) h = spec_gain_sum noteNumber h"
  by (simp add: rawGainSum_def spec_gain_sum_def rawGain_spec)

lemma nth_startedGains:
  assumes "k < n" "n \<le> length gs"
  shows "startedGains b n gs ! k
     = rawGain b k * (if rawGainSum b n > 9 / 10 then (9 / 10) / rawGainSum b n else 1)"
  using assms by (simp add: startedGains_def nth_upd_prefix)

lemma sum_startedGains:
  assumes "n \<le> length gs"
  shows "(\<Sum>k<n. \<bar>startedGains b n gs ! k\<bar>)
     = (if rawGainSum b n > 9 / 10 then 9 / 10 else rawGainSum b n)"
proof -
  let ?c = "if rawGainSum b n > 9 / 10 then (9 / 10) / rawGainSum b n else 1"
  have c: "0 \<le> ?c" by simp
  have "(\<Sum>k<n. \<bar>startedGains b n gs ! k\<bar>) = (\<Sum>k<n. \<bar>rawGain b k\<bar> * ?c)"
    using assms by (intro sum.cong refl) (simp add: nth_startedGains abs_mult)
  also have "\<dots> = rawGainSum b n * ?c"
    by (simp only: rawGainSum_def sum_distrib_right)
  also have "\<dots> = (if rawGainSum b n > 9 / 10 then 9 / 10 else rawGainSum b n)"
    by simp
  finally show ?thesis .
qed

lemma spec_gain_0: "spec_gain noteNumber 0 = 2 / (176 / 100)"
  by (simp add: spec_gain_def Let_def)

lemma spec_gain_sum_large:
  assumes "0 < h"
  shows "spec_gain_sum noteNumber h > 9 / 10"
proof -
  have "\<bar>spec_gain noteNumber 0\<bar> \<le> spec_gain_sum noteNumber h"
    unfolding spec_gain_sum_def
    using assms by (intro member_le_sum) simp_all
  then show ?thesis by (simp add: spec_gain_0)
qed

subsection \<open>The three loops of \<open>findFreeVoice\<close>\<close>

lemma firstInactive_Some:
  "firstInactive vs = Some i \<Longrightarrow>
     i < length vs \<and> \<not> isNoteActive (vs ! i) \<and> (\<forall>j<i. isNoteActive (vs ! j))"
proof (induction vs arbitrary: i)
  case Nil
  then show ?case by simp
next
  case (Cons v vs)
  show ?case
  proof (cases "isNoteActive v")
    case False
    with Cons.prems show ?thesis by simp
  next
    case True
    with Cons.prems obtain k where k: "firstInactive vs = Some k" "i = Suc k"
      by auto
    from Cons.IH [OF k(1)] True k(2) show ?thesis
      by (auto simp: less_Suc_eq_0_disj)
  qed
qed

lemma firstInactive_None:
  "firstInactive vs = None \<longleftrightarrow> (\<forall>v\<in>set vs. isNoteActive v)"
  by (induction vs) auto

lemma oldest_step_inv:
  assumes "oldest_inv vs n s"
  shows "oldest_inv vs (Suc n) (oldest_step vs n s)"
proof (cases s)
  case (Pair best t)
  show ?thesis
  proof (cases best)
    case None
    with Pair assms show ?thesis
      by (auto simp: oldest_inv_def oldest_step_def less_Suc_eq)
  next
    case (Some i)
    with Pair assms show ?thesis
      by (auto simp: oldest_inv_def oldest_step_def less_Suc_eq Let_def)
  qed
qed

lemma fold_oldest_inv:
  "oldest_inv vs n (fold (oldest_step vs) [0..<n] (None, 0))"
proof (induction n)
  case 0
  then show ?case by (simp add: oldest_inv_def)
next
  case (Suc n)
  then show ?case
    by (simp only: fold_upt_Suc oldest_step_inv)
qed

lemma quietest_step_inv:
  assumes "quietest_inv vs n s"
  shows "quietest_inv vs (Suc n) (quietest_step vs n s)"
proof (cases s)
  case (Pair q m)
  with assms show ?thesis
    by (auto simp: quietest_inv_def quietest_step_def less_Suc_eq Let_def)
qed

lemma fold_quietest_inv:
  "quietest_inv vs n (fold (quietest_step vs) [0..<n] (0, 1))"
proof (induction n)
  case 0
  then show ?case by (simp add: quietest_inv_def)
next
  case (Suc n)
  then show ?case
    by (simp only: fold_upt_Suc quietest_step_inv)
qed

lemma findFreeVoice_inactive:
  assumes "\<exists>v\<in>set vs. \<not> isNoteActive v"
  shows "\<exists>i<length vs. findFreeVoice vs = Some i \<and> \<not> isNoteActive (vs ! i)
           \<and> (\<forall>j<i. isNoteActive (vs ! j))"
proof -
  from assms obtain i where i: "firstInactive vs = Some i"
    using firstInactive_None [of vs] by (cases "firstInactive vs") auto
  then have "findFreeVoice vs = Some i"
    by (simp add: findFreeVoice_def)
  with firstInactive_Some [OF i] show ?thesis by blast
qed

lemma findFreeVoice_releasing:
  assumes "\<forall>v\<in>set vs. isNoteActive v" "\<exists>v\<in>set vs. isReleasing v"
  shows "\<exists>i<length vs. findFreeVoice vs = Some i \<and> isReleasing (vs ! i)
           \<and> (\<forall>v\<in>set vs. isReleasing v \<longrightarrow>
                 getReleaseSamplesRemaining (vs ! i) \<le> getReleaseSamplesRemaining v)"
proof -
  obtain best t where bt: "fold (oldest_step vs) [0..<length vs] (None, 0) = (best, t)"
    by (cases "fold (oldest_step vs) [0..<length vs] (None, 0)")
  have inv: "oldest_inv vs (length vs) (best, t)"
    using fold_oldest_inv [of vs "length vs"] bt by simp
  from assms(2) obtain j where j: "j < length vs" "isReleasing (vs ! j)"
    by (auto simp: in_set_conv_nth)
  with inv obtain i where i: "best = Some i"
    by (cases best) (auto simp: oldest_inv_def)
  with inv have p: "i < length vs" "isReleasing (vs ! i)"
    "\<forall>j<length vs. isReleasing (vs ! j) \<longrightarrow>
       getReleaseSamplesRemaining (vs ! i) \<le> getReleaseSamplesRemaining (vs ! j)"
    by (auto simp: oldest_inv_def)
  have "firstInactive vs = None"
    using assms(1) by (simp add: firstInactive_None)
  then have "findFreeVoice vs = Some i"
    using bt i by (simp add: findFreeVoice_def)
  with p show ?thesis
    by (auto simp: in_set_conv_nth)
qed

lemma findFreeVoice_quietest:
  assumes "vs \<noteq> []" "\<forall>v\<in>set vs. isNoteActive v" "\<not> (\<exists>v\<in>set vs. isReleasing v)"
  shows "\<exists>i<length vs. findFreeVoice vs = Some i
           \<and> ((\<exists>v\<in>set vs. getCurrentAmplitude v < 1) \<longrightarrow>
                 (\<forall>v\<in>set vs. getCurrentAmplitude (vs ! i) \<le> getCurrentAmplitude v))
           \<and> (\<not> (\<exists>v\<in>set vs. getCurrentAmplitude v < 1) \<longrightarrow> i = 0)"
proof -
  obtain best t where bt: "fold (oldest_step vs) [0..<length vs] (None, 0) = (best, t)"
    by (cases "fold (oldest_step vs) [0..<length vs] (None, 0)")
  have "oldest_inv vs (length vs) (best, t)"
    using fold_oldest_inv [of vs "length vs"] bt by simp
  with assms(3) have best: "best = None"
    by (cases best) (auto simp: oldest_inv_def)
  obtain q m where qm: "fold (quietest_step vs) [0..<length vs] (0, 1) = (q, m)"
    by (cases "fold (quietest_step vs) [0..<length vs] (0, 1)")
  have inv: "quietest_inv vs (length vs) (q, m)"
    using fold_quietest_inv [of vs "length vs"] qm by simp
  have "firstInactive vs = None"
    using assms(2) by (simp add: firstInactive_None)
  then have f: "findFreeVoice vs = Some q"
    using bt best qm by (simp add: findFreeVoice_def)
  from inv assms(1) have q: "q < length vs"
    by (auto simp: quietest_inv_def)
  from inv have low: "\<forall>j<length vs. m \<le> getCurrentAmplitude (vs ! j)"
    and alt: "(q = 0 \<and> m = 1) \<or> (q < length vs \<and> m = getCurrentAmplitude (vs ! q) \<and> m < 1)"
    by (auto simp: quietest_inv_def)
  have a: "(\<exists>v\<in>set vs. getCurrentAmplitude v < 1) \<longrightarrow>
       (\<forall>v\<in>set vs. getCurrentAmplitude (vs ! q) \<le> getCurrentAmplitude v)"
  proof (intro impI ballI)
    fix v assume ex: "\<exists>v\<in>set vs. getCurrentAmplitude v < 1" and v: "v \<in> set vs"
    from ex low have "m < 1" by (fastforce simp: in_set_conv_nth)
    with alt have "m = getCurrentAmplitude (vs ! q)" by auto
    with low v show "getCurrentAmplitude (vs ! q) \<le> getCurrentAmplitude v"
      by (auto simp: in_set_conv_nth)
  qed
  have b: "\<not> (\<exists>v\<in>set vs. getCurrentAmplitude v < 1) \<longrightarrow> q = 0"
    using alt q nth_mem [of q vs] by auto
  from f q a b show ?thesis by blast
qed

subsection \<open>The invariant of the voices\<close>

lemma length_resize [simp]: "length (resize n x xs) = n"
  by (simp add: resize_def)

lemma length_startedGains [simp]: "length (startedGains b n gs) = length gs"
  by (simp add: startedGains_def)

lemma voice_ok_SineWaveVoice: "voice_ok (SineWaveVoice sr note0 vel0)"
  by (simp add: voice_ok_def SineWaveVoice_def setAttackTime_def setReleaseTime_def float_0_002_def float_0_02_def MAX_OVERTONES_def)

lemma voice_ok_setAttackTime: "voice_ok v \<Longrightarrow> voice_ok (setAttackTime s v)"
  by (simp add: voice_ok_def setAttackTime_def)

lemma voice_ok_setReleaseTime: "voice_ok v \<Longrightarrow> voice_ok (setReleaseTime s v)"
  by (simp add: voice_ok_def setReleaseTime_def)

lemma voice_ok_startNote:
  assumes "voice_ok v" "0 \<le> vel" "vel \<le> 8 / 10"
  shows "voice_ok (startNote m vel v)"
  using assms by (simp add: voice_ok_def startNote_eq)

lemma voice_ok_stopNote: "voice_ok v \<Longrightarrow> voice_ok (stopNote v)"
  by (simp add: voice_ok_def stopNote_def)

lemma voice_ok_advancePhase:
  assumes "voice_ok v"
  shows "voice_ok (advancePhase v)"
proof -
  have "0 < r \<Longrightarrow> 1 \<le> n \<Longrightarrow> 1 - real_of_int r / real_of_int n \<le> 1" for r n :: int
    by simp
  with assms show ?thesis
    by (simp add: voice_ok_def advancePhase_eq advance_attack_def advance_release_def)
qed

lemma voice_ok_setNumOvertones:
  assumes "voice_ok v"
  shows "voice_ok (setNumOvertones num0 MAX_OVERTONES v)"
proof -
  define num where "num = max 1 (min MAX_OVERTONES num0)"
  have num: "1 \<le> num" "num \<le> MAX_OVERTONES" "nat num \<le> nat (num + 2)"
    by (simp_all add: num_def MAX_OVERTONES_def)
  from assms have vel: "isActive v \<longrightarrow> 0 \<le> velocity v \<and> velocity v \<le> 8 / 10"
    by (simp only: voice_ok_def) blast
  show ?thesis
  proof (cases "numOvertones v = num")
    case True
    then show ?thesis
      unfolding setNumOvertones_def Let_def num_def [symmetric]
      using assms by simp
  next
    case changed: False
    show ?thesis
    proof (cases "length (phases v) < nat (num + 2)")
      case grow: True
      have ok: "voice_ok (v\<lparr>numOvertones := num,
                    phases := resize (nat (num + 2)) 0 (phases v),
                    phaseIncrements := resize (nat (num + 2)) 0 (phaseIncrements v),
                    gains := resize (nat (num + 2)) 0 (gains v)\<rparr>)"
        using assms num by (simp add: voice_ok_def)
      show ?thesis
      proof (cases "isActive v \<and> \<not> releaseStage v")
        case True
        then show ?thesis
          unfolding setNumOvertones_def Let_def num_def [symmetric]
          using changed grow vel voice_ok_startNote [OF ok, of "velocity v" "midiNote v"]
          by simp
      next
        case False
        then show ?thesis
          unfolding setNumOvertones_def Let_def num_def [symmetric]
          using changed grow ok by auto
      qed
    next
      case keep: False
      then have "nat num \<le> length (phases v)"
        using num(3) by linarith
      then have ok: "voice_ok (v\<lparr>numOvertones := num\<rparr>)"
        using assms num by (simp add: voice_ok_def)
      show ?thesis
      proof (cases "isActive v \<and> \<not> releaseStage v")
        case True
        then show ?thesis
          unfolding setNumOvertones_def Let_def num_def [symmetric]
          using changed keep vel voice_ok_startNote [OF ok, of "velocity v" "midiNote v"]
          by simp
      next
        case False
        then show ?thesis
          unfolding setNumOvertones_def Let_def num_def [symmetric]
          using changed keep ok by auto
      qed
    qed
  qed
qed

lemma voice_ok_setSampleRate:
  assumes "voice_ok v"
  shows "voice_ok (setSampleRate sr v)"
proof -
  let ?v1 = "setReleaseTime float_0_02 (setAttackTime float_0_002 (v\<lparr>sampleRate := sr\<rparr>))"
  have "voice_ok (v\<lparr>sampleRate := sr\<rparr>)"
    using assms by (simp add: voice_ok_def)
  then have v1: "voice_ok ?v1"
    by (intro voice_ok_setReleaseTime voice_ok_setAttackTime)
  show ?thesis
  proof (cases "isActive ?v1")
    case True
    with v1 have "0 \<le> velocity ?v1" "velocity ?v1 \<le> 8 / 10"
      by (simp_all only: voice_ok_def)
    then have "voice_ok (startNote (midiNote ?v1) (velocity ?v1) ?v1)"
      using v1 by (intro voice_ok_startNote)
    with True show ?thesis
      by (simp only: setSampleRate_def Let_def if_True)
  next
    case False
    with v1 show ?thesis
      by (simp only: setSampleRate_def Let_def if_False)
  qed
qed

lemma voice_ok_updateParameters:
  "voice_ok v \<Longrightarrow> voice_ok (updateParameters numOvertones0 releaseTime v)"
  unfolding updateParameters_def
  by (intro voice_ok_setAttackTime voice_ok_setReleaseTime voice_ok_setNumOvertones)

lemma findFreeVoice_in_range:
  assumes "vs \<noteq> []"
  shows "\<exists>i<length vs. findFreeVoice vs = Some i"
proof (cases "\<exists>v\<in>set vs. \<not> isNoteActive v")
  case True
  then show ?thesis using findFreeVoice_inactive [of vs] by blast
next
  case False
  then have all: "\<forall>v\<in>set vs. isNoteActive v" by blast
  show ?thesis
  proof (cases "\<exists>v\<in>set vs. isReleasing v")
    case True
    with all show ?thesis using findFreeVoice_releasing [of vs] by blast
  next
    case False
    with all assms show ?thesis using findFreeVoice_quietest [of vs] by blast
  qed
qed

lemma findVoiceForNote_Some:
  "findVoiceForNote n vs = Some i \<Longrightarrow>
     i < length vs \<and> isNoteActive (vs ! i) \<and> getMidiNote (vs ! i) = n
     \<and> (\<forall>j<i. \<not> (isNoteActive (vs ! j) \<and> getMidiNote (vs ! j) = n))"
proof (induction vs arbitrary: i)
  case Nil
  then show ?case by simp
next
  case (Cons v vs)
  show ?case
  proof (cases "isNoteActive v \<and> getMidiNote v = n")
    case True
    with Cons.prems show ?thesis by simp
  next
    case False
    with Cons.prems obtain k where k: "findVoiceForNote n vs = Some k" "i = Suc k"
      by auto
    from Cons.IH [OF k(1)] False k(2) show ?thesis
      by (auto simp: less_Suc_eq_0_disj)
  qed
qed

lemma all_ok_update:
  assumes "\<forall>v\<in>set vs. voice_ok v" "voice_ok w"
  shows "\<forall>v\<in>set (vs[i := w]). voice_ok v"
  using assms set_update_subset_insert [of vs i w] by auto

lemma voice_ok_handleMessage:
  assumes "\<forall>v\<in>set vs. voice_ok v" "valid_message message"
  shows "\<forall>v\<in>set (handleMessage message vs). voice_ok v"
proof (cases message)
  case (NoteOn noteNumber floatVelocity)
  then have vel: "0 \<le> floatVelocity * (8 / 10)" "floatVelocity * (8 / 10) \<le> 8 / 10"
    using assms(2) by (simp_all add: valid_message_def)
  show ?thesis
  proof (cases "findFreeVoice vs")
    case None
    with NoteOn assms(1) show ?thesis by (simp add: handleMessage_def)
  next
    case (Some i)
    show ?thesis
    proof (cases "i < length vs")
      case True
      then have "voice_ok (startNote noteNumber (floatVelocity * (8 / 10)) (vs ! i))"
        using assms(1) vel by (intro voice_ok_startNote) simp_all
      then show ?thesis
        using NoteOn Some all_ok_update [OF assms(1)] by (simp add: handleMessage_def Let_def)
    next
      case False
      then have "vs[i := startNote noteNumber (floatVelocity * (8 / 10)) (vs ! i)] = vs"
        by (intro list_update_beyond) simp
      then show ?thesis
        using NoteOn Some assms(1) by (simp add: handleMessage_def Let_def)
    qed
  qed
next
  case (NoteOff noteNumber)
  show ?thesis
  proof (cases "findVoiceForNote noteNumber vs")
    case None
    with NoteOff assms(1) show ?thesis by (simp add: handleMessage_def)
  next
    case (Some i)
    then have "i < length vs" using findVoiceForNote_Some by blast
    then have "voice_ok (stopNote (vs ! i))"
      using assms(1) by (intro voice_ok_stopNote) simp
    then show ?thesis
      using NoteOff Some all_ok_update [OF assms(1)] by (simp add: handleMessage_def)
  qed
next
  case AllNotesOff
  then show ?thesis using assms(1) by (simp add: handleMessage_def voice_ok_stopNote)
next
  case OtherMessage
  then show ?thesis using assms(1) by (simp add: handleMessage_def)
qed

lemma length_handleMessage [simp]: "length (handleMessage message vs) = length vs"
  by (cases message) (simp_all add: handleMessage_def Let_def split: option.splits)

lemma reachable_voices_inv:
  "reachable_voices vs \<Longrightarrow> length vs = MAX_VOICES \<and> (\<forall>v\<in>set vs. voice_ok v)"
proof (induction rule: reachable_voices.induct)
  case (constructed note0 vel0)
  then show ?case by (simp add: SineWaveAudioProcessor_def voice_ok_SineWaveVoice)
next
  case (prepared vs sr)
  then show ?case by (simp add: voice_ok_setSampleRate)
next
  case (updated vs numOvertones0 releaseTime)
  then show ?case by (simp add: voice_ok_updateParameters)
next
  case (handled vs message)
  then show ?case using voice_ok_handleMessage [of vs message] by simp
next
  case (advanced vs)
  then show ?case by (simp add: voice_ok_advancePhase)
qed

lemma amplitude_below_one:
  assumes "voice_ok v" "isNoteActive v" "\<not> isReleasing v"
  shows "getCurrentAmplitude v < 1"
proof -
  from assms have vel: "0 \<le> velocity v" "velocity v \<le> 8 / 10" and rel: "\<not> releaseStage v"
    and att: "attackStage v \<longrightarrow> attackLevel v \<le> 1"
    by (simp_all add: voice_ok_def isNoteActive_def isReleasing_def)
  show ?thesis
  proof (cases "attackStage v")
    case True
    with att have "velocity v * attackLevel v \<le> velocity v * 1"
      using vel(1) by (intro mult_left_mono) simp_all
    with True vel show ?thesis by (simp add: getCurrentAmplitude_def)
  next
    case False
    with rel vel show ?thesis by (simp add: getCurrentAmplitude_def)
  qed
qed

subsection \<open>Note-on messages and the example pools\<close>

lemma startNote_in_pool:
  assumes "i < length vs"
  shows "isNoteActive (vs[i := startNote noteNumber vel (vs ! i)] ! i)
     \<and> getMidiNote (vs[i := startNote noteNumber vel (vs ! i)] ! i) = noteNumber
     \<and> velocity (vs[i := startNote noteNumber vel (vs ! i)] ! i) = vel"
  using assms by (simp add: isNoteActive_def getMidiNote_def startNote_eq)

lemma handleMessage_NoteOn:
  assumes "findFreeVoice vs = Some i"
  shows "handleMessage (NoteOn noteNumber floatVelocity) vs
     = vs[i := startNote noteNumber (floatVelocity * (8 / 10)) (vs ! i)]"
  using assms by (simp add: handleMessage_def Let_def)

lemma reachable_handleMidi:
  assumes "reachable_voices vs" "\<forall>message\<in>set midiMessages. valid_message message"
  shows "reachable_voices (handleMidi midiMessages vs)"
  using assms unfolding handleMidi_def
proof (induction midiMessages arbitrary: vs)
  case Nil
  then show ?case by simp
next
  case (Cons message rest)
  then show ?case by (simp add: reachable_voices.handled)
qed

lemma firstInactive_replicate:
  assumes "isNoteActive a" "\<not> isNoteActive b"
  shows "firstInactive (replicate k a @ b # xs) = Some k"
  using assms by (induction k) simp_all

lemma findFreeVoice_replicate:
  assumes "isNoteActive a" "\<not> isNoteActive b"
  shows "findFreeVoice (replicate k a @ b # xs) = Some k"
  using firstInactive_replicate [OF assms] by (simp add: findFreeVoice_def)

lemma fill_pool:
  assumes "\<not> isNoteActive b"
  shows "handleMidi (replicate m (NoteOn n fv)) (replicate k (startNote n (fv * (8 / 10)) b) @ replicate m b)
     = replicate (k + m) (startNote n (fv * (8 / 10)) b)"
proof (induction m arbitrary: k)
  case 0
  then show ?case by (simp add: handleMidi_def)
next
  case (Suc m)
  let ?a = "startNote n (fv * (8 / 10)) b"
  have a: "isNoteActive ?a"
    by (simp add: isNoteActive_def startNote_eq)
  have "handleMessage (NoteOn n fv) (replicate k ?a @ b # replicate m b)
      = (replicate k ?a @ b # replicate m b)[k := ?a]"
    using findFreeVoice_replicate [OF a assms, of k "replicate m b"]
    by (simp add: handleMessage_NoteOn nth_append)
  also have "\<dots> = replicate (Suc k) ?a @ replicate m b"
    by (simp add: list_update_append replicate_append_same)
  finally have step: "handleMessage (NoteOn n fv) (replicate k ?a @ replicate (Suc m) b)
      = replicate (Suc k) ?a @ replicate m b"
    by simp
  have "handleMidi (replicate (Suc m) (NoteOn n fv)) (replicate k ?a @ replicate (Suc m) b)
      = handleMidi (replicate m (NoteOn n fv)) (handleMessage (NoteOn n fv) (replicate k ?a @ replicate (Suc m) b))"
    by (simp add: handleMidi_def)
  also have "\<dots> = replicate (Suc k + m) ?a"
    by (simp only: step Suc.IH)
  finally show ?case by simp
qed

lemma startedVoice_fields:
  "isNoteActive startedVoice" "\<not> isReleasing startedVoice" "getMidiNote startedVoice = 60"
  by (simp_all add: startedVoice_def isNoteActive_def isReleasing_def getMidiNote_def startNote_eq)

lemma poolInitial_eq: "poolInitial = replicate 16 (SineWaveVoice 44100 0 0)"
  by (simp add: poolInitial_def SineWaveAudioProcessor_def MAX_VOICES_def)

lemma poolFull_eq: "poolFull = replicate 16 startedVoice"
proof -
  have "\<not> isNoteActive (SineWaveVoice 44100 0 0)"
    by (simp add: isNoteActive_def SineWaveVoice_def setAttackTime_def setReleaseTime_def float_0_002_def float_0_02_def)
  from fill_pool [OF this, of 16 60 1 0] show ?thesis
    by (simp add: poolFull_def poolInitial_eq startedVoice_def)
qed

lemma poolReleasing_eq: "poolReleasing = stopNote startedVoice # replicate 15 startedVoice"
proof -
  have r: "replicate 16 startedVoice = startedVoice # replicate 15 startedVoice"
    by (simp add: numeral_eq_Suc)
  show ?thesis
    using startedVoice_fields
    by (simp add: poolReleasing_def poolFull_eq handleMessage_def r)
qed

lemma reachable_pools:
  "reachable_voices poolInitial" "reachable_voices poolFull" "reachable_voices poolReleasing"
proof -
  show i: "reachable_voices poolInitial"
    unfolding poolInitial_def by (rule reachable_voices.constructed)
  then show f: "reachable_voices poolFull"
    unfolding poolFull_def by (rule reachable_handleMidi) (simp add: valid_message_def)
  then show "reachable_voices poolReleasing"
    unfolding poolReleasing_def by (rule reachable_voices.handled) (simp add: valid_message_def)
qed

lemma pool_facts:
  "\<exists>v\<in>set poolInitial. \<not> isNoteActive v"
  "\<forall>v\<in>set poolFull. isNoteActive v"
  "\<not> (\<exists>v\<in>set poolFull. isReleasing v)"
  "\<forall>v\<in>set poolReleasing. isNoteActive v"
  "\<exists>v\<in>set poolReleasing. isReleasing v"
proof -
  have s: "isNoteActive (stopNote startedVoice)" "isReleasing (stopNote startedVoice)"
    using startedVoice_fields stopNote_fields [of startedVoice]
    by (simp_all add: isNoteActive_def isReleasing_def)
  show "\<exists>v\<in>set poolInitial. \<not> isNoteActive v"
    by (simp add: poolInitial_eq isNoteActive_def SineWaveVoice_def setAttackTime_def setReleaseTime_def float_0_002_def float_0_02_def)
  show "\<forall>v\<in>set poolFull. isNoteActive v" "\<not> (\<exists>v\<in>set poolFull. isReleasing v)"
    using startedVoice_fields by (simp_all add: poolFull_eq)
  show "\<forall>v\<in>set poolReleasing. isNoteActive v" "\<exists>v\<in>set poolReleasing. isReleasing v"
    using startedVoice_fields s by (simp_all add: poolReleasing_eq)
qed

subsection \<open>The sample loop and the soft clipping\<close>

lemma softClip_spec: "softClip x = spec_softClip x"
proof -
  have a: "(x + 7 / 10) / (1 - 7 / 10) = - ((- x - 7 / 10) / (3 / 10))"
    by (simp add: field_simps)
  have b: "(x - 7 / 10) / (1 - 7 / 10) = (x - 7 / 10) / (3 / 10)"
    by simp
  consider "x > 7 / 10" | "x < - (7 / 10)" | "- (7 / 10) \<le> x \<and> x \<le> 7 / 10"
    by linarith
  then show ?thesis
  proof cases
    case 1
    then have "softClip x = 7 / 10 + (1 - 7 / 10) * tanh ((x - 7 / 10) / (3 / 10))"
      by (simp only: softClip_def if_True b)
    moreover from 1 have "\<not> \<bar>x\<bar> \<le> 7 / 10" "sgn x = 1" "\<bar>x\<bar> = x"
      by simp_all
    then have "spec_softClip x = 1 * (7 / 10 + (3 / 10) * tanh ((x - 7 / 10) / (3 / 10)))"
      by (simp only: spec_softClip_def if_False)
    ultimately show ?thesis by simp
  next
    case 2
    then have "\<not> x > 7 / 10" by simp
    with 2 have "softClip x = - (7 / 10) + (1 - 7 / 10) * tanh (- ((- x - 7 / 10) / (3 / 10)))"
      by (simp only: softClip_def if_True if_False a)
    moreover from 2 have "\<not> \<bar>x\<bar> \<le> 7 / 10" "sgn x = - 1" "\<bar>x\<bar> = - x"
      by simp_all
    then have "spec_softClip x = - 1 * (7 / 10 + (3 / 10) * tanh ((- x - 7 / 10) / (3 / 10)))"
      by (simp only: spec_softClip_def if_False)
    ultimately show ?thesis by (simp only: tanh_minus) simp
  next
    case 3
    then have "\<bar>x\<bar> \<le> 7 / 10" by linarith
    moreover from 3 have "\<not> x > 7 / 10" "\<not> x < - (7 / 10)" by simp_all
    ultimately show ?thesis by (simp only: softClip_def spec_softClip_def if_True if_False)
  qed
qed

lemma softClip_bound: "\<bar>softClip x\<bar> < 1"
proof -
  have pos: "0 < 7 / 10 + (1 - 7 / 10) * t \<and> 7 / 10 + (1 - 7 / 10) * t < 1" if "0 < t" "t < 1" for t :: real
    using that by simp
  have neg: "- (7 / 10) + (1 - 7 / 10) * t < 0 \<and> - 1 < - (7 / 10) + (1 - 7 / 10) * t" if "t < 0" "- 1 < t" for t :: real
    using that by simp
  consider "x > 7 / 10" | "x < - (7 / 10)" | "- (7 / 10) \<le> x \<and> x \<le> 7 / 10"
    by linarith
  then show ?thesis
  proof cases
    case 1
    define t where "t = tanh ((x - 7 / 10) / (1 - 7 / 10))"
    have "0 < t" "t < 1"
      using 1 by (simp_all add: t_def tanh_real_lt_1)
    from pos [OF this] have "\<bar>7 / 10 + (1 - 7 / 10) * t\<bar> < 1"
      by linarith
    moreover have "softClip x = 7 / 10 + (1 - 7 / 10) * t"
      using 1 by (simp only: softClip_def if_True t_def)
    ultimately show ?thesis by simp
  next
    case 2
    define t where "t = tanh ((x + 7 / 10) / (1 - 7 / 10))"
    have "t < 0" "- 1 < t"
      using 2 by (simp_all add: t_def tanh_real_gt_neg1)
    from neg [OF this] have "\<bar>- (7 / 10) + (1 - 7 / 10) * t\<bar> < 1"
      by linarith
    moreover have "\<not> x > 7 / 10" using 2 by simp
    then have "softClip x = - (7 / 10) + (1 - 7 / 10) * t"
      using 2 by (simp only: softClip_def if_True if_False t_def)
    ultimately show ?thesis by simp
  next
    case 3
    then show ?thesis by (simp add: softClip_def abs_real_def)
  qed
qed

lemma renderSamples_Suc:
  "renderSamples (Suc n) m p =
     (fst (renderSamples n m (renderStep p)),
      softClip (sumVoices (voices p) * smoothedFactor p * m) # snd (renderSamples n m (renderStep p)))"
  by (simp add: Let_def split_beta renderStep_def smoothedFactor_def)

lemma length_renderSamples [simp]: "length (snd (renderSamples n m p)) = n"
  by (induction n arbitrary: p) (simp_all add: renderSamples_Suc del: renderSamples.simps(2))

lemma renderSamples_state: "fst (renderSamples n m p) = (renderStep ^^ n) p"
  by (induction n arbitrary: p) (simp_all add: renderSamples_Suc funpow_swap1 del: renderSamples.simps(2))

lemma renderSamples_nth:
  "i < n \<Longrightarrow> snd (renderSamples n m p) ! i
     = softClip (sumVoices (voices ((renderStep ^^ i) p)) * smoothedFactor ((renderStep ^^ i) p) * m)"
proof (induction n arbitrary: p i)
  case 0
  then show ?case by simp
next
  case (Suc n)
  show ?case
  proof (cases i)
    case 0
    then show ?thesis by (simp add: renderSamples_Suc del: renderSamples.simps(2))
  next
    case (Suc k)
    with Suc.prems have "k < n" by simp
    from Suc.IH [OF this, of "renderStep p"] Suc show ?thesis
      by (simp add: renderSamples_Suc funpow_swap1 del: renderSamples.simps(2))
  qed
qed

lemma renderStep_target: "targetVoiceScalingFactor ((renderStep ^^ n) p) = targetVoiceScalingFactor p"
  by (induction n) (simp_all add: renderStep_def)

lemma getActiveVoiceCount_fold:
  "fold (\<lambda>v count. if isNoteActive v then count + 1 else count) vs c
     = c + int (length (filter isNoteActive vs))"
  by (induction vs arbitrary: c) simp_all

lemma getActiveVoiceCount_eq: "getActiveVoiceCount vs = int (length (filter isNoteActive vs))"
  by (simp add: getActiveVoiceCount_def getActiveVoiceCount_fold)

lemma computeTarget_spec:
  "0 \<le> activeVoiceCount \<Longrightarrow> computeTarget activeVoiceCount h = spec_target activeVoiceCount h"
  by (simp add: computeTarget_def spec_target_def Let_def add.commute)

lemma processBlock_eq:
  "processBlock masterAmplitude overtonesParam releaseTime midiMessages numChannels numSamples
       totalNumOutputChannels p =
     (fst (renderSamples numSamples masterAmplitude (beginBlock overtonesParam releaseTime midiMessages p)),
      map (\<lambda>channel. if channel < totalNumOutputChannels
                        then snd (renderSamples numSamples masterAmplitude
                                    (beginBlock overtonesParam releaseTime midiMessages p))
                        else replicate numSamples 0) [0..<numChannels])"
  by (simp add: processBlock_def Let_def split_beta)

subsection \<open>The pools \<open>prepareToPlay\<close> and \<open>processBlock\<close> leave are reachable\<close>

lemma renderStep_voices: "voices ((renderStep ^^ n) p) = (map advancePhase ^^ n) (voices p)"
  by (induction n) (simp_all add: renderStep_def)

lemma reachable_advanced_funpow:
  "reachable_voices vs \<Longrightarrow> reachable_voices ((map advancePhase ^^ n) vs)"
  by (induction n) (simp_all add: reachable_voices.advanced)

lemma reachable_prepareToPlay:
  "reachable_voices (voices p) \<Longrightarrow> reachable_voices (voices (prepareToPlay sr p))"
  by (simp add: prepareToPlay_def reachable_voices.prepared)

lemma reachable_beginBlock:
  assumes "reachable_voices (voices p)" "\<forall>message\<in>set midiMessages. valid_message message"
  shows "reachable_voices (voices (beginBlock overtonesParam releaseTime midiMessages p))"
proof -
  have "voices (beginBlock overtonesParam releaseTime midiMessages p)
      = handleMidi midiMessages (map (updateParameters (clampOvertones overtonesParam) releaseTime) (voices p))"
    by (simp add: beginBlock_def Let_def)
  then show ?thesis
    using assms by (simp add: reachable_handleMidi reachable_voices.updated)
qed

lemma reachable_processBlock:
  assumes "reachable_voices (voices p)" "\<forall>message\<in>set midiMessages. valid_message message"
  shows "reachable_voices (voices (fst (processBlock masterAmplitude overtonesParam releaseTime
           midiMessages numChannels numSamples totalNumOutputChannels p)))"
  using reachable_beginBlock [OF assms]
  by (simp add: processBlock_eq renderSamples_state renderStep_voices reachable_advanced_funpow)

section \<open>The claims\<close>

subsection \<open>C1: the range of the output samples\<close>

text \<open>
  C1: every sample of the buffer that \<open>processBlock\<close> returns has magnitude below 1, for
  every state of the processor and every parameter, message list and buffer size; and the
  value written at sample position \<open>i\<close> of an output channel is the soft clipping, in
  the form the specification gives it (the identity on \<open>[-0.7, 0.7]\<close>, else
  \<open>+/-(0.7 + 0.3 tanh((|x| - 0.7) / 0.3))\<close> with the sign of \<open>x\<close>), of the sum of
  the active voices times the smoothed scaling factor times \<open>masterAmplitude\<close>, taken in
  the state the sample loop has reached after \<open>i\<close> positions, before the voices advance
  past position \<open>i\<close>. Channels beyond \<open>totalNumOutputChannels\<close> stay cleared.
\<close>

theorem output_within_unit_range:
  assumes "channel < numChannels" "i < numSamples"
  shows "\<bar>snd (processBlock masterAmplitude overtonesParam releaseTime midiMessages numChannels
                numSamples totalNumOutputChannels p) ! channel ! i\<bar> < 1
    \<and> (channel < totalNumOutputChannels \<longrightarrow>
         snd (processBlock masterAmplitude overtonesParam releaseTime midiMessages numChannels
                numSamples totalNumOutputChannels p) ! channel ! i
         = spec_softClip
             (sumVoices (voices (fst (renderSamples i masterAmplitude
                  (beginBlock overtonesParam releaseTime midiMessages p))))
              * smoothedFactor (fst (renderSamples i masterAmplitude
                  (beginBlock overtonesParam releaseTime midiMessages p)))
              * masterAmplitude))
    \<and> (\<not> channel < totalNumOutputChannels \<longrightarrow>
         snd (processBlock masterAmplitude overtonesParam releaseTime midiMessages numChannels
                numSamples totalNumOutputChannels p) ! channel ! i = 0)"
proof (cases "channel < totalNumOutputChannels")
  case True
  let ?b = "beginBlock overtonesParam releaseTime midiMessages p"
  have "snd (processBlock masterAmplitude overtonesParam releaseTime midiMessages numChannels
                numSamples totalNumOutputChannels p) ! channel ! i
      = snd (renderSamples numSamples masterAmplitude ?b) ! i"
    using assms(1) True by (simp add: processBlock_eq)
  also have "\<dots> = softClip (sumVoices (voices ((renderStep ^^ i) ?b)) * smoothedFactor ((renderStep ^^ i) ?b) * masterAmplitude)"
    using assms(2) by (rule renderSamples_nth)
  finally show ?thesis
    using softClip_bound softClip_spec by (simp only: True renderSamples_state) simp
next
  case False
  then have "snd (processBlock masterAmplitude overtonesParam releaseTime midiMessages numChannels
                numSamples totalNumOutputChannels p) ! channel ! i = 0"
    using assms by (simp add: processBlock_eq)
  with False show ?thesis by simp
qed

theorem output_within_unit_range_witness:
  "(0::nat) < 2 \<and> (0::nat) < 1
   \<and> \<bar>snd (processBlock 1 8 (2 / 100) [NoteOn 69 1] 2 1 2 (SineWaveAudioProcessor 0 0)) ! 0 ! 0\<bar> < 1
   \<and> snd (processBlock 1 8 (2 / 100) [NoteOn 69 1] 2 1 2 (SineWaveAudioProcessor 0 0)) ! 0 ! 0
       = spec_softClip
           (sumVoices (voices (fst (renderSamples 0 1 (beginBlock 8 (2 / 100) [NoteOn 69 1] (SineWaveAudioProcessor 0 0)))))
            * smoothedFactor (fst (renderSamples 0 1 (beginBlock 8 (2 / 100) [NoteOn 69 1] (SineWaveAudioProcessor 0 0))))
            * 1)
   \<and> \<not> (0::nat) < 0
   \<and> snd (processBlock 1 8 (2 / 100) [NoteOn 69 1] 2 1 0 (SineWaveAudioProcessor 0 0)) ! 0 ! 0 = 0"
proof -
  have h: "(0::nat) < 2" "(0::nat) < 1" "\<not> (0::nat) < 0" by simp_all
  show ?thesis
    using h
      output_within_unit_range [OF h(1,2), of 1 8 "2 / 100" "[NoteOn 69 1]" 2 "SineWaveAudioProcessor 0 0"]
      output_within_unit_range [OF h(1,2), of 1 8 "2 / 100" "[NoteOn 69 1]" 0 "SineWaveAudioProcessor 0 0"]
    by blast
qed

subsection \<open>C2: the attack ramp\<close>

text \<open>
  C2 states that \<open>attackSamples\<close> calls of \<open>advancePhase\<close> right after
  \<open>startNote\<close> leave \<open>attackLevel = 1\<close> and the attack stage exited. On the
  code this fails: at sample rate 1000 the attack lasts 2 samples, and after 2 calls the
  voice is still in its attack stage, at level \<open>1/2\<close>.
\<close>

theorem attack_counterexample:
  "attackStage ((advancePhase ^^ nat (attackSamples (SineWaveVoice 1000 0 0)))
       (startNote 69 (8 / 10) (SineWaveVoice 1000 0 0)))
   \<and> attackLevel ((advancePhase ^^ nat (attackSamples (SineWaveVoice 1000 0 0)))
       (startNote 69 (8 / 10) (SineWaveVoice 1000 0 0))) = 1 / 2"
proof -
  let ?s = "startNote 69 (8 / 10) (SineWaveVoice 1000 0 0)"
  have s: "isActive ?s" "attackStage ?s" "\<not> releaseStage ?s"
    "attackSamplesRemaining ?s = int 2 + 0" "attackSamples ?s = 2"
    by (simp_all add: startNote_eq v0_samples)
  have "nat (attackSamples (SineWaveVoice 1000 0 0)) = 2"
    by (simp add: v0_samples)
  then show ?thesis
    using attack_run [OF s(1-4)] s(5) by simp
qed

text \<open>
  C2 as amended: for every voice whose attack lasts \<open>attackSamples \<ge> 1\<close> samples,
  \<open>attackSamples\<close> calls of \<open>advancePhase\<close> right after \<open>startNote\<close> use up
  the counter and leave the voice in its attack stage at level \<open>1 - 1/attackSamples\<close>;
  one more call sets \<open>attackLevel\<close> to 1 and exits the attack stage.
\<close>

theorem attack_needs_one_more_advance:
  assumes "1 \<le> attackSamples v"
  shows "attackStage ((advancePhase ^^ nat (attackSamples v)) (startNote m vel v))
    \<and> attackSamplesRemaining ((advancePhase ^^ nat (attackSamples v)) (startNote m vel v)) = 0
    \<and> attackLevel ((advancePhase ^^ nat (attackSamples v)) (startNote m vel v))
         = 1 - 1 / real_of_int (attackSamples v)
    \<and> \<not> attackStage ((advancePhase ^^ (nat (attackSamples v) + 1)) (startNote m vel v))
    \<and> attackLevel ((advancePhase ^^ (nat (attackSamples v) + 1)) (startNote m vel v)) = 1"
proof -
  let ?s = "startNote m vel v"
  let ?w = "(advancePhase ^^ nat (attackSamples v)) ?s"
  have s: "isActive ?s" "attackStage ?s" "\<not> releaseStage ?s"
    "attackSamplesRemaining ?s = int (nat (attackSamples v)) + 0" "attackSamples ?s = attackSamples v"
    using assms by (simp_all add: startNote_eq)
  have w: "isActive ?w \<and> attackStage ?w \<and> \<not> releaseStage ?w \<and> attackSamplesRemaining ?w = 0
     \<and> attackLevel ?w = 1 - 1 / real_of_int (attackSamples v)"
    using attack_run [OF s(1-4)] s(5) assms by simp
  then have "\<not> attackStage (advancePhase ?w) \<and> attackLevel (advancePhase ?w) = 1"
    using advancePhase_attack_end [of ?w] by simp
  with w show ?thesis by simp
qed

theorem attack_witness:
  "1 \<le> attackSamples (SineWaveVoice 1000 0 0)
   \<and> attackStage ((advancePhase ^^ nat (attackSamples (SineWaveVoice 1000 0 0)))
        (startNote 69 (8 / 10) (SineWaveVoice 1000 0 0)))
   \<and> \<not> attackStage ((advancePhase ^^ (nat (attackSamples (SineWaveVoice 1000 0 0)) + 1))
        (startNote 69 (8 / 10) (SineWaveVoice 1000 0 0)))
   \<and> attackLevel ((advancePhase ^^ (nat (attackSamples (SineWaveVoice 1000 0 0)) + 1))
        (startNote 69 (8 / 10) (SineWaveVoice 1000 0 0))) = 1"
proof -
  have h: "1 \<le> attackSamples (SineWaveVoice 1000 0 0)"
    by (simp add: v0_samples)
  show ?thesis
    using h attack_needs_one_more_advance [OF h, of 69 "8 / 10"] by simp
qed

subsection \<open>C3: the release ramp\<close>

text \<open>
  C3 states that \<open>stopNote\<close> followed by \<open>releaseSamples\<close> calls of
  \<open>advancePhase\<close> leaves the voice inactive. On the code this fails: at sample rate
  1000 the release lasts 19 samples, and 19 calls after \<open>stopNote\<close> the voice is
  still active.
\<close>

theorem release_counterexample:
  "isNoteActive (startNote 69 (8 / 10) (SineWaveVoice 1000 0 0))
   \<and> isNoteActive ((advancePhase ^^ nat (releaseSamples (startNote 69 (8 / 10) (SineWaveVoice 1000 0 0))))
         (stopNote (startNote 69 (8 / 10) (SineWaveVoice 1000 0 0))))"
proof -
  let ?v = "startNote 69 (8 / 10) (SineWaveVoice 1000 0 0)"
  have v: "isActive ?v" "\<not> releaseStage ?v" "releaseSamples ?v = 19"
    by (simp_all add: startNote_eq v0_samples)
  have s: "isActive (stopNote ?v)" "\<not> attackStage (stopNote ?v)" "releaseStage (stopNote ?v)"
    "releaseSamplesRemaining (stopNote ?v) = int 19 + 0"
    using stopNote_fields [OF v(1,2)] v(3) by simp_all
  have "nat (releaseSamples ?v) = 19"
    using v(3) by simp
  then show ?thesis
    using release_run [OF s] v(1) by (simp add: isNoteActive_def)
qed

text \<open>
  C3 as amended: for every active voice that is not yet releasing and whose release lasts
  \<open>releaseSamples \<ge> 1\<close> samples, \<open>stopNote\<close> followed by \<open>releaseSamples\<close>
  calls of \<open>advancePhase\<close> uses up the counter and leaves the voice active at level
  \<open>1/releaseSamples\<close>; one more call makes it inactive.
\<close>

theorem release_needs_one_more_advance:
  assumes "isActive v" "\<not> releaseStage v" "1 \<le> releaseSamples v"
  shows "isNoteActive ((advancePhase ^^ nat (releaseSamples v)) (stopNote v))
    \<and> releaseSamplesRemaining ((advancePhase ^^ nat (releaseSamples v)) (stopNote v)) = 0
    \<and> releaseLevel ((advancePhase ^^ nat (releaseSamples v)) (stopNote v))
         = 1 / real_of_int (releaseSamples v)
    \<and> \<not> isNoteActive ((advancePhase ^^ (nat (releaseSamples v) + 1)) (stopNote v))"
proof -
  let ?s = "stopNote v"
  let ?w = "(advancePhase ^^ nat (releaseSamples v)) ?s"
  have s: "isActive ?s" "\<not> attackStage ?s" "releaseStage ?s"
    "releaseSamplesRemaining ?s = int (nat (releaseSamples v)) + 0" "releaseSamples ?s = releaseSamples v"
    using assms stopNote_fields [of v] by simp_all
  have w: "isActive ?w \<and> \<not> attackStage ?w \<and> releaseStage ?w \<and> releaseSamplesRemaining ?w = 0
     \<and> releaseLevel ?w = 1 / real_of_int (releaseSamples v)"
    using release_run [OF s(1-4)] s(5) assms by simp
  then have "\<not> isActive (advancePhase ?w)"
    using advancePhase_release_end [of ?w] by simp
  with w show ?thesis by (simp add: isNoteActive_def)
qed

theorem release_witness:
  "isActive (startNote 69 (8 / 10) (SineWaveVoice 1000 0 0))
   \<and> \<not> releaseStage (startNote 69 (8 / 10) (SineWaveVoice 1000 0 0))
   \<and> 1 \<le> releaseSamples (startNote 69 (8 / 10) (SineWaveVoice 1000 0 0))
   \<and> \<not> isNoteActive ((advancePhase ^^ (nat (releaseSamples (startNote 69 (8 / 10) (SineWaveVoice 1000 0 0))) + 1))
         (stopNote (startNote 69 (8 / 10) (SineWaveVoice 1000 0 0))))"
proof -
  let ?v = "startNote 69 (8 / 10) (SineWaveVoice 1000 0 0)"
  have v: "isActive ?v" "\<not> releaseStage ?v" "1 \<le> releaseSamples ?v"
    by (simp_all add: startNote_eq v0_samples)
  show ?thesis
    using v release_needs_one_more_advance [OF v] by simp
qed

subsection \<open>C4: \<open>stopNote\<close>\<close>

text \<open>
  C4 states that \<open>stopNote\<close> on a voice still in its attack stage starts the release
  at the current attack level. The code clears \<open>attackStage\<close> before the conditional
  expression reads it, so the release always starts at 1: the voice reached by
  \<open>startNote\<close> and two calls of \<open>advancePhase\<close> at sample rate 1000 is active, not
  releasing, in its attack stage at level \<open>1/2\<close>, and \<open>stopNote\<close> sets its
  \<open>releaseLevel\<close> to 1.
\<close>

theorem stopNote_in_attack:
  "isNoteActive voiceInAttack \<and> \<not> isReleasing voiceInAttack \<and> attackStage voiceInAttack
   \<and> attackLevel voiceInAttack = 1 / 2
   \<and> releaseLevel (stopNote voiceInAttack) = 1"
  using voiceInAttack_fields stopNote_fields [of voiceInAttack]
  by (simp add: isNoteActive_def isReleasing_def)

subsection \<open>C5: the allocation of a voice to a note-on\<close>

text \<open>
  C5: in every pool of voices the processor can reach (from the constructor, by
  \<open>prepareToPlay\<close>, the parameter updates, MIDI messages with velocities in \<open>[0, 1]\<close> and
  \<open>advancePhase\<close>), \<open>findFreeVoice\<close> returns a voice of the pool, never \<open>nullptr\<close>, and
  the note-on starts the note on that voice: it is active with the note's number afterwards.
  The voice is (1) an inactive one if the pool has one; else (2) a releasing one whose
  \<open>getReleaseSamplesRemaining()\<close> is the least among the releasing voices; else (3) one
  whose \<open>getCurrentAmplitude()\<close> is the least of the pool. Since the pool keeps its
  \<open>MAX_VOICES\<close> voices, a note-on that finds all of them active reuses one of them.
\<close>

theorem note_on_always_starts_a_voice:
  assumes "reachable_voices vs"
  shows "length vs = MAX_VOICES
   \<and> length (handleMessage (NoteOn noteNumber floatVelocity) vs) = MAX_VOICES
   \<and> (\<exists>i<length vs. findFreeVoice vs = Some i
     \<and> handleMessage (NoteOn noteNumber floatVelocity) vs
          = vs[i := startNote noteNumber (floatVelocity * (8 / 10)) (vs ! i)]
     \<and> isNoteActive (handleMessage (NoteOn noteNumber floatVelocity) vs ! i)
     \<and> getMidiNote (handleMessage (NoteOn noteNumber floatVelocity) vs ! i) = noteNumber
     \<and> ((\<exists>v\<in>set vs. \<not> isNoteActive v) \<longrightarrow> \<not> isNoteActive (vs ! i))
     \<and> ((\<forall>v\<in>set vs. isNoteActive v) \<and> (\<exists>v\<in>set vs. isReleasing v) \<longrightarrow>
           isReleasing (vs ! i)
           \<and> (\<forall>v\<in>set vs. isReleasing v \<longrightarrow>
                 getReleaseSamplesRemaining (vs ! i) \<le> getReleaseSamplesRemaining v))
     \<and> ((\<forall>v\<in>set vs. isNoteActive v) \<and> \<not> (\<exists>v\<in>set vs. isReleasing v) \<longrightarrow>
           (\<forall>v\<in>set vs. getCurrentAmplitude (vs ! i) \<le> getCurrentAmplitude v)))"
proof -
  from reachable_voices_inv [OF assms] have len: "length vs = MAX_VOICES"
    and ok: "\<forall>v\<in>set vs. voice_ok v"
    by simp_all
  from len have ne: "vs \<noteq> []"
    by (auto simp: MAX_VOICES_def)
  have started: "handleMessage (NoteOn noteNumber floatVelocity) vs
          = vs[i := startNote noteNumber (floatVelocity * (8 / 10)) (vs ! i)]
     \<and> isNoteActive (handleMessage (NoteOn noteNumber floatVelocity) vs ! i)
     \<and> getMidiNote (handleMessage (NoteOn noteNumber floatVelocity) vs ! i) = noteNumber"
    if "i < length vs" "findFreeVoice vs = Some i" for i
    using that startNote_in_pool [of i vs noteNumber "floatVelocity * (8 / 10)"]
    by (simp only: handleMessage_NoteOn [OF that(2)])
  have "\<exists>i<length vs. findFreeVoice vs = Some i
     \<and> handleMessage (NoteOn noteNumber floatVelocity) vs
          = vs[i := startNote noteNumber (floatVelocity * (8 / 10)) (vs ! i)]
     \<and> isNoteActive (handleMessage (NoteOn noteNumber floatVelocity) vs ! i)
     \<and> getMidiNote (handleMessage (NoteOn noteNumber floatVelocity) vs ! i) = noteNumber
     \<and> ((\<exists>v\<in>set vs. \<not> isNoteActive v) \<longrightarrow> \<not> isNoteActive (vs ! i))
     \<and> ((\<forall>v\<in>set vs. isNoteActive v) \<and> (\<exists>v\<in>set vs. isReleasing v) \<longrightarrow>
           isReleasing (vs ! i)
           \<and> (\<forall>v\<in>set vs. isReleasing v \<longrightarrow>
                 getReleaseSamplesRemaining (vs ! i) \<le> getReleaseSamplesRemaining v))
     \<and> ((\<forall>v\<in>set vs. isNoteActive v) \<and> \<not> (\<exists>v\<in>set vs. isReleasing v) \<longrightarrow>
           (\<forall>v\<in>set vs. getCurrentAmplitude (vs ! i) \<le> getCurrentAmplitude v))" (is ?main)
  proof (cases "\<exists>v\<in>set vs. \<not> isNoteActive v")
    case True
    then obtain i where "i < length vs" "findFreeVoice vs = Some i" "\<not> isNoteActive (vs ! i)"
      using findFreeVoice_inactive [of vs] by blast
    with True started [of i] show ?main by blast
  next
    case False
    then have all: "\<forall>v\<in>set vs. isNoteActive v" by blast
    show ?main
    proof (cases "\<exists>v\<in>set vs. isReleasing v")
      case True
      then obtain i where "i < length vs" "findFreeVoice vs = Some i" "isReleasing (vs ! i)"
        "\<forall>v\<in>set vs. isReleasing v \<longrightarrow>
            getReleaseSamplesRemaining (vs ! i) \<le> getReleaseSamplesRemaining v"
        using findFreeVoice_releasing [OF all] by blast
      with True False started [of i] show ?main by blast
    next
      case none: False
      from ne obtain w where w: "w \<in> set vs" by (cases vs) auto
      with all none ok have "getCurrentAmplitude w < 1"
        by (intro amplitude_below_one) blast+
      with w have "\<exists>v\<in>set vs. getCurrentAmplitude v < 1" by blast
      then obtain i where "i < length vs" "findFreeVoice vs = Some i"
        "\<forall>v\<in>set vs. getCurrentAmplitude (vs ! i) \<le> getCurrentAmplitude v"
        using findFreeVoice_quietest [OF ne all none] by blast
      with none False started [of i] show ?main by blast
    qed
  qed
moreover have "length (handleMessage (NoteOn noteNumber floatVelocity) vs) = MAX_VOICES"
    using len by simp
  ultimately show ?thesis
    using len by blast
qed

theorem note_on_witness:
  "reachable_voices poolInitial \<and> (\<exists>v\<in>set poolInitial. \<not> isNoteActive v)
   \<and> (\<exists>i<length poolInitial. findFreeVoice poolInitial = Some i \<and> \<not> isNoteActive (poolInitial ! i)
        \<and> isNoteActive (handleMessage (NoteOn 72 1) poolInitial ! i))
   \<and> reachable_voices poolReleasing \<and> \<not> (\<exists>v\<in>set poolReleasing. \<not> isNoteActive v)
   \<and> (\<exists>v\<in>set poolReleasing. isReleasing v)
   \<and> (\<exists>i<length poolReleasing. findFreeVoice poolReleasing = Some i \<and> isReleasing (poolReleasing ! i)
        \<and> getMidiNote (handleMessage (NoteOn 72 1) poolReleasing ! i) = 72)
   \<and> reachable_voices poolFull \<and> \<not> (\<exists>v\<in>set poolFull. \<not> isNoteActive v)
   \<and> \<not> (\<exists>v\<in>set poolFull. isReleasing v)
   \<and> (\<exists>i<length poolFull. findFreeVoice poolFull = Some i
        \<and> getMidiNote (handleMessage (NoteOn 72 1) poolFull ! i) = 72
        \<and> \<not> (\<exists>v\<in>set poolFull. getCurrentAmplitude v < getCurrentAmplitude (poolFull ! i)))"
proof -
  have 1: "\<exists>i<length poolInitial. findFreeVoice poolInitial = Some i \<and> \<not> isNoteActive (poolInitial ! i)
        \<and> isNoteActive (handleMessage (NoteOn 72 1) poolInitial ! i)"
    using note_on_always_starts_a_voice [OF reachable_pools(1), of 72 1] pool_facts(1)
    by blast
  have 2: "\<exists>i<length poolReleasing. findFreeVoice poolReleasing = Some i \<and> isReleasing (poolReleasing ! i)
        \<and> getMidiNote (handleMessage (NoteOn 72 1) poolReleasing ! i) = 72"
    using note_on_always_starts_a_voice [OF reachable_pools(3), of 72 1] pool_facts(4,5)
    by blast
  have "\<exists>i<length poolFull. findFreeVoice poolFull = Some i
        \<and> getMidiNote (handleMessage (NoteOn 72 1) poolFull ! i) = 72
        \<and> (\<forall>v\<in>set poolFull. getCurrentAmplitude (poolFull ! i) \<le> getCurrentAmplitude v)"
    using note_on_always_starts_a_voice [OF reachable_pools(2), of 72 1] pool_facts(2,3)
    by blast
  then have 3: "\<exists>i<length poolFull. findFreeVoice poolFull = Some i
        \<and> getMidiNote (handleMessage (NoteOn 72 1) poolFull ! i) = 72
        \<and> \<not> (\<exists>v\<in>set poolFull. getCurrentAmplitude v < getCurrentAmplitude (poolFull ! i))"
    by (meson not_le)
  from 1 2 3 reachable_pools pool_facts show ?thesis
    by blast
qed

subsection \<open>C6: the gains after \<open>startNote\<close>\<close>

text \<open>
  C6: right after \<open>startNote\<close>, for a voice whose gain array holds its \<open>numOvertones\<close>
  overtones, the gain of overtone \<open>k\<close> is \<open>2 / (1.1^(freq_k/f0) * 1.6^(k+1))\<close> times one
  factor common to all overtones (\<open>0.9 / sum\<close> when the sum of the absolute raw gains
  exceeds 0.9, else 1); the sum of the absolute gains is at most 0.9, and it is 0.9 whenever
  the raw sum exceeds 0.9, which it does for every count of at least one overtone.
  The statement holds for every note number, velocity and overtone count, in exact real
  arithmetic.
\<close>

theorem gains_after_startNote:
  assumes "nat (numOvertones v) \<le> length (gains v)"
  shows "(\<forall>k < nat (numOvertones v). gains (startNote noteNumber vel v) ! k
            = spec_gain noteNumber k * (if spec_gain_sum noteNumber (nat (numOvertones v)) > 9 / 10
                                  then (9 / 10) / spec_gain_sum noteNumber (nat (numOvertones v)) else 1))
    \<and> (\<Sum>k < nat (numOvertones v). \<bar>gains (startNote noteNumber vel v) ! k\<bar>) \<le> 9 / 10
    \<and> (spec_gain_sum noteNumber (nat (numOvertones v)) > 9 / 10 \<longrightarrow>
          (\<Sum>k < nat (numOvertones v). \<bar>gains (startNote noteNumber vel v) ! k\<bar>) = 9 / 10)
    \<and> (1 \<le> numOvertones v \<longrightarrow>
          (\<Sum>k < nat (numOvertones v). \<bar>gains (startNote noteNumber vel v) ! k\<bar>) = 9 / 10)"
proof -
  let ?h = "nat (numOvertones v)"
  let ?S = "spec_gain_sum noteNumber ?h"
  have g: "gains (startNote noteNumber vel v) = startedGains (baseFrequency noteNumber) ?h (gains v)"
    by (simp add: startNote_eq)
  have each: "\<forall>k < ?h. gains (startNote noteNumber vel v) ! k
       = spec_gain noteNumber k * (if ?S > 9 / 10 then (9 / 10) / ?S else 1)"
  proof (intro allI impI)
    fix k assume "k < ?h"
    then show "gains (startNote noteNumber vel v) ! k
       = spec_gain noteNumber k * (if ?S > 9 / 10 then (9 / 10) / ?S else 1)"
      using assms nth_startedGains [where k = k and n = "?h" and gs = "gains v" and b = "baseFrequency noteNumber"]
      by (simp only: g rawGain_spec rawGainSum_spec)
  qed
  have total: "(\<Sum>k < ?h. \<bar>gains (startNote noteNumber vel v) ! k\<bar>) = (if ?S > 9 / 10 then 9 / 10 else ?S)"
    using assms by (simp only: g sum_startedGains rawGainSum_spec)
  have large: "1 \<le> numOvertones v \<longrightarrow> ?S > 9 / 10"
    using spec_gain_sum_large [where h = "?h" and noteNumber = noteNumber] by simp
  from total have bound: "(\<Sum>k < ?h. \<bar>gains (startNote noteNumber vel v) ! k\<bar>) \<le> 9 / 10"
    by (simp split: if_splits)
  from total have scaled: "?S > 9 / 10 \<longrightarrow> (\<Sum>k < ?h. \<bar>gains (startNote noteNumber vel v) ! k\<bar>) = 9 / 10"
    by simp
  from scaled large have always: "1 \<le> numOvertones v \<longrightarrow> (\<Sum>k < ?h. \<bar>gains (startNote noteNumber vel v) ! k\<bar>) = 9 / 10"
    by blast
  from each bound scaled always show ?thesis
    by blast
qed

theorem gains_after_startNote_witness:
  "nat (numOvertones (SineWaveVoice 44100 0 0)) \<le> length (gains (SineWaveVoice 44100 0 0))
   \<and> 1 \<le> numOvertones (SineWaveVoice 44100 0 0)
   \<and> 0 < nat (numOvertones (SineWaveVoice 44100 0 0))
   \<and> spec_gain_sum 69 (nat (numOvertones (SineWaveVoice 44100 0 0))) > 9 / 10
   \<and> gains (startNote 69 (8 / 10) (SineWaveVoice 44100 0 0)) ! 0
        = spec_gain 69 0 * ((9 / 10) / spec_gain_sum 69 (nat (numOvertones (SineWaveVoice 44100 0 0))))
   \<and> (\<Sum>k < nat (numOvertones (SineWaveVoice 44100 0 0)).
         \<bar>gains (startNote 69 (8 / 10) (SineWaveVoice 44100 0 0)) ! k\<bar>) = 9 / 10"
proof -
  let ?v = "SineWaveVoice 44100 0 0"
  have h: "nat (numOvertones ?v) \<le> length (gains ?v)" "1 \<le> numOvertones ?v" "0 < nat (numOvertones ?v)"
    by (simp_all add: SineWaveVoice_def setAttackTime_def setReleaseTime_def float_0_002_def float_0_02_def resize_def)
  have l: "spec_gain_sum 69 (nat (numOvertones ?v)) > 9 / 10"
    using h(3) by (rule spec_gain_sum_large)
  note t = gains_after_startNote [OF h(1), of 69 "8 / 10"]
  from t h(3) l have "gains (startNote 69 (8 / 10) ?v) ! 0
      = spec_gain 69 0 * ((9 / 10) / spec_gain_sum 69 (nat (numOvertones ?v)))"
    by presburger
  moreover from t h(2) have "(\<Sum>k < nat (numOvertones ?v). \<bar>gains (startNote 69 (8 / 10) ?v) ! k\<bar>) = 9 / 10"
    by blast
  ultimately show ?thesis
    using h l by blast
qed

subsection \<open>C7: the range of the phases\<close>

text \<open>
  C7 states that after every \<open>advancePhase\<close> each of the \<open>numOvertones\<close> phases lies
  in \<open>[0, 2\<pi>)\<close>. The loop subtracts \<open>2\<pi>\<close> at most once, so an increment of
  \<open>2\<pi>\<close> or more is not wrapped: for note 117 (7040 Hz) with 32 overtones at sample rate
  44100 the 32nd overtone advances by \<open>2\<pi> * 225280 / 44100\<close> per sample, and after the
  first \<open>advancePhase\<close> its phase is above \<open>2\<pi>\<close>.
\<close>

theorem phase_not_wrapped:
  "isNoteActive voiceNote117 \<and> numOvertones voiceNote117 = 32
   \<and> phases (advancePhase voiceNote117) ! 31 \<ge> twoPi"
proof -
  have "wrapped voiceNote117 31 = twoPi * 225280 / 44100 - twoPi"
    by (simp add: wrapped_def voiceNote117_fields twoPi_def)
  moreover have "phases (advancePhase voiceNote117) ! 31 = wrapped voiceNote117 31"
    by (simp add: advancePhase_eq voiceNote117_fields advance_attack_def advance_release_def nth_upd_prefix)
  moreover have "twoPi * 225280 / 44100 - twoPi \<ge> twoPi"
    by (simp add: twoPi_def)
  ultimately show ?thesis
    by (simp add: voiceNote117_fields isNoteActive_def)
qed

subsection \<open>C8: changing the envelope times during a stage\<close>

text \<open>
  C8 states that \<open>setReleaseTime\<close> during a release in progress leaves the ramp values
  of that release as they would have been. On the code this fails: a voice releasing over
  4 samples, with 4 samples remaining, gets \<open>releaseLevel = 4/4 = 1\<close> from the next
  \<open>advancePhase\<close>; after \<open>setReleaseTime(0.001)\<close> (1 sample at sample rate 1000) the
  same call gives \<open>releaseLevel = 4/1 = 4\<close>.
\<close>

theorem setReleaseTime_counterexample:
  "isReleasing voiceInRelease
   \<and> releaseLevel (advancePhase voiceInRelease) = 1
   \<and> releaseLevel (advancePhase (setReleaseTime (1 / 1000) voiceInRelease)) = 4"
  using voiceInRelease_fields
    advancePhase_release_step [of voiceInRelease]
    release_ramp_new_total [of voiceInRelease "1 / 1000"]
  by (simp add: isReleasing_def static_cast_int_def)

text \<open>
  C8 as amended: \<open>setReleaseTime\<close> and \<open>setAttackTime\<close> change only the stored total
  (\<open>releaseSamples\<close>, \<open>attackSamples\<close>), which \<open>advancePhase\<close> never changes.
  After any number \<open>k\<close> of \<open>advancePhase\<close> calls the voice is the same as without the
  change in every member but that total and the level of that stage, so the stage in progress
  ends after the same number of calls. The ramp of the stage in progress is not the same:
  for \<open>1 \<le> k \<le> remaining\<close>, the \<open>k\<close>-th call after \<open>setReleaseTime\<close> during a
  release leaves \<open>releaseLevel = (remaining - k + 1) / newTotal\<close>, where it would have been
  \<open>(remaining - k + 1) / oldTotal\<close>, and the \<open>k\<close>-th call after \<open>setAttackTime\<close>
  during the attack of a voice that is not releasing leaves
  \<open>attackLevel = 1 - (remaining - k + 1) / newTotal\<close>, where it would have been
  \<open>1 - (remaining - k + 1) / oldTotal\<close>. The new total is what a \<open>startNote\<close> after
  any number of calls loads into \<open>attackSamplesRemaining\<close>, and what a \<open>stopNote\<close> on a
  voice then active and not releasing loads into \<open>releaseSamplesRemaining\<close>.
\<close>

theorem set_times_change_the_divisor:
  "setReleaseTime s v = v\<lparr>releaseSamples := max 1 (static_cast_int (s * sampleRate v))\<rparr>
   \<and> setAttackTime s v = v\<lparr>attackSamples := max 1 (static_cast_int (s * sampleRate v))\<rparr>
   \<and> releaseSamples ((advancePhase ^^ k) (setReleaseTime s v)) = max 1 (static_cast_int (s * sampleRate v))
   \<and> attackSamples ((advancePhase ^^ k) (setAttackTime s v)) = max 1 (static_cast_int (s * sampleRate v))
   \<and> ((advancePhase ^^ k) (setReleaseTime s v))\<lparr>releaseSamples := a, releaseLevel := b\<rparr>
     = ((advancePhase ^^ k) v)\<lparr>releaseSamples := a, releaseLevel := b\<rparr>
   \<and> ((advancePhase ^^ k) (setAttackTime s v))\<lparr>attackSamples := a, attackLevel := b\<rparr>
     = ((advancePhase ^^ k) v)\<lparr>attackSamples := a, attackLevel := b\<rparr>
   \<and> (isReleasing v \<and> 0 < k \<and> int k \<le> releaseSamplesRemaining v \<longrightarrow>
        releaseLevel ((advancePhase ^^ k) (setReleaseTime s v))
          = real_of_int (releaseSamplesRemaining v - int k + 1)
              / real_of_int (max 1 (static_cast_int (s * sampleRate v)))
        \<and> releaseLevel ((advancePhase ^^ k) v)
          = real_of_int (releaseSamplesRemaining v - int k + 1) / real_of_int (releaseSamples v))
   \<and> (isNoteActive v \<and> attackStage v \<and> \<not> isReleasing v \<and> 0 < k \<and> int k \<le> attackSamplesRemaining v \<longrightarrow>
        attackLevel ((advancePhase ^^ k) (setAttackTime s v))
          = 1 - real_of_int (attackSamplesRemaining v - int k + 1)
                  / real_of_int (max 1 (static_cast_int (s * sampleRate v)))
        \<and> attackLevel ((advancePhase ^^ k) v)
          = 1 - real_of_int (attackSamplesRemaining v - int k + 1) / real_of_int (attackSamples v))
   \<and> attackSamplesRemaining (startNote m vel ((advancePhase ^^ k) (setAttackTime s v)))
        = max 1 (static_cast_int (s * sampleRate v))
   \<and> (isNoteActive ((advancePhase ^^ k) (setReleaseTime s v))
        \<and> \<not> isReleasing ((advancePhase ^^ k) (setReleaseTime s v)) \<longrightarrow>
        releaseSamplesRemaining (stopNote ((advancePhase ^^ k) (setReleaseTime s v)))
          = max 1 (static_cast_int (s * sampleRate v)))"
proof -
  have 1: "setReleaseTime s v = v\<lparr>releaseSamples := max 1 (static_cast_int (s * sampleRate v))\<rparr>"
    "setAttackTime s v = v\<lparr>attackSamples := max 1 (static_cast_int (s * sampleRate v))\<rparr>"
    by (simp_all add: setReleaseTime_def setAttackTime_def)
  have 7: "isReleasing v \<and> 0 < k \<and> int k \<le> releaseSamplesRemaining v \<longrightarrow>
        releaseLevel ((advancePhase ^^ k) (setReleaseTime s v))
          = real_of_int (releaseSamplesRemaining v - int k + 1)
              / real_of_int (max 1 (static_cast_int (s * sampleRate v)))
        \<and> releaseLevel ((advancePhase ^^ k) v)
          = real_of_int (releaseSamplesRemaining v - int k + 1) / real_of_int (releaseSamples v)"
    using release_ramp_after_setReleaseTime [of v k s] release_ramp_unchanged [of v k]
    by (simp add: isReleasing_def)
  have 8: "isNoteActive v \<and> attackStage v \<and> \<not> isReleasing v \<and> 0 < k \<and> int k \<le> attackSamplesRemaining v \<longrightarrow>
        attackLevel ((advancePhase ^^ k) (setAttackTime s v))
          = 1 - real_of_int (attackSamplesRemaining v - int k + 1)
                  / real_of_int (max 1 (static_cast_int (s * sampleRate v)))
        \<and> attackLevel ((advancePhase ^^ k) v)
          = 1 - real_of_int (attackSamplesRemaining v - int k + 1) / real_of_int (attackSamples v)"
    using attack_ramp_after_setAttackTime [of v k s] attack_ramp_unchanged [of v k]
    by (simp add: isReleasing_def isNoteActive_def)
  have 10: "isNoteActive ((advancePhase ^^ k) (setReleaseTime s v))
        \<and> \<not> isReleasing ((advancePhase ^^ k) (setReleaseTime s v)) \<longrightarrow>
        releaseSamplesRemaining (stopNote ((advancePhase ^^ k) (setReleaseTime s v)))
          = max 1 (static_cast_int (s * sampleRate v))"
    using later_stopNote_loads_total [of k s v] by (simp add: isReleasing_def isNoteActive_def)
  from 1 7 8 10 totals_after_setters [of k s v]
    setReleaseTime_frame [where k = k and s = s and v = v and a = a and b = b]
    setAttackTime_frame [where k = k and s = s and v = v and a = a and b = b]
    later_startNote_loads_total [of m vel k s v]
  show ?thesis by blast
qed

theorem set_times_witness:
  "isReleasing voiceInRelease \<and> (0::nat) < 2 \<and> int 2 \<le> releaseSamplesRemaining voiceInRelease
   \<and> releaseLevel ((advancePhase ^^ 2) (setReleaseTime (1 / 1000) voiceInRelease)) = 3
   \<and> releaseLevel ((advancePhase ^^ 2) voiceInRelease) = 3 / 4
   \<and> releaseSamplesRemaining ((advancePhase ^^ 2) (setReleaseTime (1 / 1000) voiceInRelease))
       = releaseSamplesRemaining ((advancePhase ^^ 2) voiceInRelease)
   \<and> isNoteActive (startNote 69 (8 / 10) (SineWaveVoice 1000 0 0))
   \<and> attackStage (startNote 69 (8 / 10) (SineWaveVoice 1000 0 0))
   \<and> \<not> isReleasing (startNote 69 (8 / 10) (SineWaveVoice 1000 0 0))
   \<and> int 2 \<le> attackSamplesRemaining (startNote 69 (8 / 10) (SineWaveVoice 1000 0 0))
   \<and> attackLevel ((advancePhase ^^ 2) (setAttackTime (4 / 1000) (startNote 69 (8 / 10) (SineWaveVoice 1000 0 0)))) = 3 / 4
   \<and> attackLevel ((advancePhase ^^ 2) (startNote 69 (8 / 10) (SineWaveVoice 1000 0 0))) = 1 / 2
   \<and> isNoteActive ((advancePhase ^^ 2) (setReleaseTime (4 / 1000) (startNote 69 (8 / 10) (SineWaveVoice 1000 0 0))))
   \<and> \<not> isReleasing ((advancePhase ^^ 2) (setReleaseTime (4 / 1000) (startNote 69 (8 / 10) (SineWaveVoice 1000 0 0))))
   \<and> releaseSamplesRemaining (stopNote ((advancePhase ^^ 2)
         (setReleaseTime (4 / 1000) (startNote 69 (8 / 10) (SineWaveVoice 1000 0 0))))) = 4"
proof -
  let ?s = "startNote 69 (8 / 10) (SineWaveVoice 1000 0 0)"
  let ?u = "setReleaseTime (4 / 1000) ?s"
  have s: "isActive ?s" "attackStage ?s" "\<not> releaseStage ?s" "attackSamplesRemaining ?s = 2"
    "sampleRate ?s = 1000" "attackSamples ?s = 2"
    by (simp_all add: startNote_eq v0_samples)
      (simp add: SineWaveVoice_def setAttackTime_def setReleaseTime_def)
  have u: "isActive ?u" "attackStage ?u" "\<not> releaseStage ?u" "attackSamplesRemaining ?u = int 2 + 0"
    using s by (simp_all add: setReleaseTime_def)
  have w: "isNoteActive ((advancePhase ^^ 2) ?u)" "\<not> isReleasing ((advancePhase ^^ 2) ?u)"
    using attack_run [OF u] by (simp_all add: isNoteActive_def isReleasing_def)
  have r: "isReleasing voiceInRelease" "int 2 \<le> releaseSamplesRemaining voiceInRelease"
    "releaseSamplesRemaining voiceInRelease = 4" "releaseSamples voiceInRelease = 4"
    "sampleRate voiceInRelease = 1000"
    using voiceInRelease_fields by (simp_all add: isReleasing_def)
  have a: "isNoteActive ?s" "\<not> isReleasing ?s" "int 2 \<le> attackSamplesRemaining ?s"
    using s by (simp_all add: isNoteActive_def isReleasing_def)
  note t1 = set_times_change_the_divisor [where k = 2 and s = "1 / 1000" and v = voiceInRelease and a = 0 and b = 0]
  note t2 = set_times_change_the_divisor [where k = 2 and s = "4 / 1000" and v = "?s"]
  have z: "(0::nat) < 2" by simp
  from t1 r(1,2) z have "releaseLevel ((advancePhase ^^ 2) (setReleaseTime (1 / 1000) voiceInRelease))
        = real_of_int (releaseSamplesRemaining voiceInRelease - int 2 + 1)
            / real_of_int (max 1 (static_cast_int (1 / 1000 * sampleRate voiceInRelease)))
      \<and> releaseLevel ((advancePhase ^^ 2) voiceInRelease)
        = real_of_int (releaseSamplesRemaining voiceInRelease - int 2 + 1)
            / real_of_int (releaseSamples voiceInRelease)"
    by blast
  then have l1: "releaseLevel ((advancePhase ^^ 2) (setReleaseTime (1 / 1000) voiceInRelease)) = 3"
    "releaseLevel ((advancePhase ^^ 2) voiceInRelease) = 3 / 4"
    by (simp_all add: r(3-5) static_cast_int_def)
  from t1 have "((advancePhase ^^ 2) (setReleaseTime (1 / 1000) voiceInRelease))\<lparr>releaseSamples := 0, releaseLevel := 0\<rparr>
      = ((advancePhase ^^ 2) voiceInRelease)\<lparr>releaseSamples := 0, releaseLevel := 0\<rparr>"
    by blast
  then have "releaseSamplesRemaining (((advancePhase ^^ 2) (setReleaseTime (1 / 1000) voiceInRelease))\<lparr>releaseSamples := 0, releaseLevel := 0\<rparr>)
      = releaseSamplesRemaining (((advancePhase ^^ 2) voiceInRelease)\<lparr>releaseSamples := 0, releaseLevel := 0\<rparr>)"
    by (rule arg_cong)
  then have l2: "releaseSamplesRemaining ((advancePhase ^^ 2) (setReleaseTime (1 / 1000) voiceInRelease))
       = releaseSamplesRemaining ((advancePhase ^^ 2) voiceInRelease)"
    by simp
  from t2 a s(2) z have "attackLevel ((advancePhase ^^ 2) (setAttackTime (4 / 1000) ?s))
        = 1 - real_of_int (attackSamplesRemaining ?s - int 2 + 1)
                / real_of_int (max 1 (static_cast_int (4 / 1000 * sampleRate ?s)))
      \<and> attackLevel ((advancePhase ^^ 2) ?s)
        = 1 - real_of_int (attackSamplesRemaining ?s - int 2 + 1) / real_of_int (attackSamples ?s)"
    by blast
  then have l3: "attackLevel ((advancePhase ^^ 2) (setAttackTime (4 / 1000) ?s)) = 3 / 4"
    "attackLevel ((advancePhase ^^ 2) ?s) = 1 / 2"
    using s(4-6) by (simp_all add: static_cast_int_def)
  from t2 w have "releaseSamplesRemaining (stopNote ((advancePhase ^^ 2) ?u))
      = max 1 (static_cast_int (4 / 1000 * sampleRate ?s))"
    by blast
  then have l4: "releaseSamplesRemaining (stopNote ((advancePhase ^^ 2) ?u)) = 4"
    using s(5) by (simp add: static_cast_int_def)
  from r(1,2) a s(2) w l1 l2 l3 l4 show ?thesis
    by simp
qed

subsection \<open>C9: the target scaling factor\<close>

text \<open>
  C9: the target scaling factor that \<open>processBlock\<close> leaves in the processor is the one
  the specification gives for the number of voices that are active once the MIDI messages of
  the block are handled and for the clamped overtone parameter: 1 for no active voice, else
  \<open>base = 1 / sqrt(activeVoiceCount)\<close>, times \<open>0.7 + 0.3 / log10(harmonicCount + 1)\<close>
  when \<open>harmonicCount > 1\<close>. The count is the number of voices with \<open>isNoteActive\<close>,
  and the clamped parameter lies in \<open>[1, MAX_OVERTONES]\<close>, so the remaining case is
  \<open>harmonicCount = 1\<close>.
\<close>

theorem target_recomputed_each_block:
  "targetVoiceScalingFactor
      (fst (processBlock masterAmplitude overtonesParam releaseTime midiMessages numChannels numSamples
              totalNumOutputChannels p))
     = spec_target (getActiveVoiceCount (voices (beginBlock overtonesParam releaseTime midiMessages p)))
         (clampOvertones overtonesParam)
   \<and> getActiveVoiceCount (voices (beginBlock overtonesParam releaseTime midiMessages p))
       = int (length (filter isNoteActive
           (handleMidi midiMessages
              (map (updateParameters (clampOvertones overtonesParam) releaseTime) (voices p)))))
   \<and> 1 \<le> clampOvertones overtonesParam \<and> clampOvertones overtonesParam \<le> MAX_OVERTONES"
proof -
  let ?vs = "handleMidi midiMessages (map (updateParameters (clampOvertones overtonesParam) releaseTime) (voices p))"
  have v: "voices (beginBlock overtonesParam releaseTime midiMessages p) = ?vs"
    by (simp add: beginBlock_def Let_def)
  have "targetVoiceScalingFactor (beginBlock overtonesParam releaseTime midiMessages p)
      = computeTarget (getActiveVoiceCount ?vs) (clampOvertones overtonesParam)"
    by (simp add: beginBlock_def Let_def)
  also have "\<dots> = spec_target (getActiveVoiceCount ?vs) (clampOvertones overtonesParam)"
    by (rule computeTarget_spec) (simp add: getActiveVoiceCount_eq)
  finally show ?thesis
    by (simp add: processBlock_eq renderSamples_state renderStep_target v getActiveVoiceCount_eq
        clampOvertones_def MAX_OVERTONES_def)
qed

subsection \<open>C10: the velocity of a started note\<close>

text \<open>
  C10: a note-on with velocity \<open>floatVelocity\<close> calls \<open>startNote\<close> on the chosen voice
  with \<open>floatVelocity * 0.8\<close>, which is that voice's velocity afterwards, at most 0.8 for
  an event velocity of at most 1; and in every
  pool the processor can reach with event velocities in \<open>[0, 1]\<close>, no active voice has a
  velocity above 0.8.
\<close>

theorem note_on_velocity_scaled:
  assumes "reachable_voices vs"
  shows "(\<exists>i<length vs. findFreeVoice vs = Some i
       \<and> handleMessage (NoteOn noteNumber floatVelocity) vs
            = vs[i := startNote noteNumber (floatVelocity * (8 / 10)) (vs ! i)]
       \<and> velocity (handleMessage (NoteOn noteNumber floatVelocity) vs ! i) = floatVelocity * (8 / 10)
       \<and> (floatVelocity \<le> 1 \<longrightarrow>
            velocity (handleMessage (NoteOn noteNumber floatVelocity) vs ! i) \<le> 8 / 10))
     \<and> (\<forall>v\<in>set vs. isNoteActive v \<longrightarrow> velocity v \<le> 8 / 10)"
proof -
  from reachable_voices_inv [OF assms] have len: "length vs = MAX_VOICES"
    and ok: "\<forall>v\<in>set vs. voice_ok v"
    by simp_all
  from len have "vs \<noteq> []"
    by (auto simp: MAX_VOICES_def)
  then obtain i where i: "i < length vs" "findFreeVoice vs = Some i"
    using findFreeVoice_in_range by blast
  have "velocity (handleMessage (NoteOn noteNumber floatVelocity) vs ! i) = floatVelocity * (8 / 10)"
    using startNote_in_pool [OF i(1), of noteNumber "floatVelocity * (8 / 10)"]
    by (simp only: handleMessage_NoteOn [OF i(2)])
  moreover from this have "floatVelocity \<le> 1 \<longrightarrow>
      velocity (handleMessage (NoteOn noteNumber floatVelocity) vs ! i) \<le> 8 / 10"
    by simp
  moreover have "\<forall>v\<in>set vs. isNoteActive v \<longrightarrow> velocity v \<le> 8 / 10"
    using ok by (simp add: voice_ok_def isNoteActive_def)
  ultimately show ?thesis
    using i handleMessage_NoteOn [OF i(2)] by blast
qed

theorem note_on_velocity_witness:
  "reachable_voices poolInitial
   \<and> (1::real) \<le> 1
   \<and> (\<exists>i<length poolInitial. findFreeVoice poolInitial = Some i
        \<and> velocity (handleMessage (NoteOn 72 1) poolInitial ! i) = 1 * (8 / 10)
        \<and> velocity (handleMessage (NoteOn 72 1) poolInitial ! i) \<le> 8 / 10)
   \<and> reachable_voices poolFull
   \<and> isNoteActive (poolFull ! 0) \<and> velocity (poolFull ! 0) \<le> 8 / 10"
proof -
  have m: "poolFull ! 0 \<in> set poolFull"
    by (simp add: poolFull_eq)
  then have a: "isNoteActive (poolFull ! 0)"
    using pool_facts(2) by blast
  have "velocity (poolFull ! 0) \<le> 8 / 10"
    using note_on_velocity_scaled [OF reachable_pools(2), of 72 1] m a by blast
  moreover have "\<exists>i<length poolInitial. findFreeVoice poolInitial = Some i
        \<and> velocity (handleMessage (NoteOn 72 1) poolInitial ! i) = 1 * (8 / 10)
        \<and> velocity (handleMessage (NoteOn 72 1) poolInitial ! i) \<le> 8 / 10"
    using note_on_velocity_scaled [OF reachable_pools(1), of 72 1] by auto
  ultimately show ?thesis
    using a reachable_pools by blast
qed

end
